theory Spec2Isabelle
  imports Complex_Main "HOL-Library.Multiset"
begin

section \<open>Values, text and effects of \<open>main.py\<close>\<close>

text \<open>
  The numbers that \<open>main.py\<close> prints and compares are Python ints and floats. A float is
  represented by the rational it denotes: every float that occurs in the sweep is a
  quotient \<open>n / 2 ^ k\<close> of a list length by a power of two or an asymmetry factor that is
  only compared and printed, so no rounding of float arithmetic is involved (list lengths
  below \<open>2 ^ 53\<close>, factors finite).
\<close>

datatype pynum = PyInt int | PyFloat rat

fun num_val :: "pynum \<Rightarrow> rat" where
  "num_val (PyInt i) = of_int i"
| "num_val (PyFloat q) = q"

text \<open>Exceptions: the two that \<open>main.py\<close> raises itself (\<open>ValueError\<close> in \<open>run\<close>,
  \<open>SystemExit\<close> from \<open>exit()\<close>), the \<open>IndexError\<close> of list indexing, and whatever a
  function of another module raises.\<close>

datatype 'x exn = ValueError string | SystemExit | IndexError | Foreign 'x

text \<open>Observable effects, in the order they happen. \<open>Enter_run\<close> is a ghost event: it
  records the \<open>beta\<close> argument of each call of \<open>run\<close> and corresponds to no statement.\<close>

datatype event = Print string | Print_help | Read_graph string | Enter_run pynum

record graph =
  nodes :: "nat list"
  weight :: "nat \<Rightarrow> nat \<Rightarrow> rat"

record oracle_result =
  cost :: pynum
  tour :: "nat list"

record solution = oracle_result +
  kernel_size :: nat

record arguments =
  arg_graph :: string
  arg_algo :: string
  arg_compute_tour :: bool
  arg_output_tour :: bool
  arg_beta_list :: "pynum list"
  arg_multibeta :: bool

text \<open>The functions that \<open>main.py\<close> imports from other modules
  (\<open>argparse\<close>, \<open>parser\<close>, \<open>graph\<close>, \<open>util\<close>, \<open>check_symmetry_metric\<close>,
  \<open>concorde_wrapper\<close>, \<open>vc_wrapper\<close>, \<open>treedoubling\<close>, \<open>christofides\<close>) and the
  rendering of a float by \<open>str\<close> are parameters. Solvers and parsers may raise.\<close>

record ('m, 'vc, 'x) externals =
  parse_args :: "string list \<Rightarrow> 'x exn + arguments"
  parse :: "string \<Rightarrow> 'x + 'm"
  remove_dead_nodes :: "'m \<Rightarrow> 'm"
  metricize_cost_matrix :: "'m \<Rightarrow> 'm"
  to_graph :: "'m \<Rightarrow> graph"
  asymmetry_factors :: "'m \<Rightarrow> rat list"
  concorde_asym :: "graph \<Rightarrow> 'x + oracle_result"
  vertex_cover :: "'vc"
  g_treedoubling :: "graph \<Rightarrow> (graph \<Rightarrow> 'x + oracle_result) \<Rightarrow> pynum \<Rightarrow> 'x + solution"
  g_christofides ::
    "graph \<Rightarrow> (graph \<Rightarrow> 'x + oracle_result) \<Rightarrow> 'vc \<Rightarrow> pynum \<Rightarrow> 'x + solution"
  str_float :: "rat \<Rightarrow> string"

subsection \<open>Python built-ins\<close>

fun str_nat :: "nat \<Rightarrow> string" where
  "str_nat n =
     (if n < 10 then [''0123456789'' ! n]
      else str_nat (n div 10) @ [''0123456789'' ! (n mod 10)])"

declare str_nat.simps [simp del]

definition str_int :: "int \<Rightarrow> string" where
  "str_int i = (if i < 0 then CHR ''-'' # str_nat (nat (- i)) else str_nat (nat i))"

fun str_num :: "('m, 'vc, 'x) externals \<Rightarrow> pynum \<Rightarrow> string" where
  "str_num ext (PyInt i) = str_int i"
| "str_num ext (PyFloat q) = str_float ext q"

text \<open>\<open>sep.join(xs)\<close>\<close>

fun join :: "string \<Rightarrow> string list \<Rightarrow> string" where
  "join sep [] = []"
| "join sep [x] = x"
| "join sep (x # y # ys) = x @ sep @ join sep (y # ys)"

text \<open>\<open>round(x)\<close> with one argument: to the nearest integer, a tie to the even one.\<close>

definition py_round :: "rat \<Rightarrow> int" where
  "py_round x =
     (let f = \<lfloor>x\<rfloor>; d = x - of_int f
      in if d < 1 / 2 then f
         else if 1 / 2 < d then f + 1
         else if even f then f else f + 1)"

text \<open>\<open>xs[i]\<close>: a negative index counts from the end, an index out of range raises.\<close>

definition py_getitem :: "'a list \<Rightarrow> int \<Rightarrow> 'x exn + 'a" where
  "py_getitem xs i =
     (let j = (if i < 0 then int (length xs) + i else i)
      in if j < 0 \<or> int (length xs) \<le> j then Inl IndexError else Inr (xs ! nat j))"

text \<open>\<open>sorted(xs, reverse=True)\<close>\<close>

definition sorted_reverse :: "rat list \<Rightarrow> rat list" where
  "sorted_reverse xs = rev (sort xs)"

text \<open>\<open>random.shuffle(x)\<close>: for \<open>i\<close> from \<open>len(x) - 1\<close> down to \<open>1\<close>, exchange \<open>x[i]\<close>
  with \<open>x[j]\<close> for a random \<open>j\<close> in \<open>0..i\<close>. The generator is the function \<open>rnd\<close>,
  whose value at \<open>i\<close> is reduced to that range.\<close>

fun shuffle_loop :: "(nat \<Rightarrow> nat) \<Rightarrow> nat \<Rightarrow> 'a list \<Rightarrow> 'a list" where
  "shuffle_loop rnd 0 x = x"
| "shuffle_loop rnd (Suc i) x =
     (let j = rnd (Suc i) mod (Suc i + 1)
      in shuffle_loop rnd i (x[Suc i := x ! j, j := x ! Suc i]))"

definition shuffle :: "(nat \<Rightarrow> nat) \<Rightarrow> 'a list \<Rightarrow> 'a list" where
  "shuffle rnd x = shuffle_loop rnd (length x - 1) x"

subsection \<open>\<open>util.tour_cost\<close>\<close>

text \<open>Modelled from the spec: \<open>util.tour_cost\<close> is defined outside \<open>main.py\<close>. The
  data model describes a tour as implicitly closed (the last node connects back to the
  first) and its cost as the sum of the directed edge costs along the closed sequence.\<close>

definition tour_cost :: "nat list \<Rightarrow> graph \<Rightarrow> rat" where
  "tour_cost t g =
     sum_list (map (\<lambda>i. weight g (t ! i) (t ! ((i + 1) mod length t))) [0..<length t])"

section \<open>The functions of \<open>main.py\<close>\<close>

definition random_tour :: "(nat \<Rightarrow> nat) \<Rightarrow> graph \<Rightarrow> oracle_result" where
  "random_tour rnd g =
     (let tour = nodes g;
          tour = shuffle rnd tour
      in \<lparr>cost = PyFloat (tour_cost tour g), tour = tour\<rparr>)"

text \<open>The dummy oracle, \<open>lambda graph: {'cost': 0, 'tour': list(graph)}\<close>, written out
  in both \<open>multibeta\<close> and \<open>run\<close>.\<close>

definition dummy_oracle :: "graph \<Rightarrow> 'x + oracle_result" where
  "dummy_oracle graph = Inr \<lparr>cost = PyInt 0, tour = nodes graph\<rparr>"

definition format_output ::
  "('m, 'vc, 'x) externals \<Rightarrow> solution \<Rightarrow> nat \<Rightarrow> pynum \<Rightarrow> bool \<Rightarrow> bool \<Rightarrow> string" where
  "format_output ext solution graph_size beta compute_tour output_tour =
     (let output =
            map (str_num ext) [beta, PyInt (int graph_size), PyInt (int (kernel_size solution))];
          output = (if compute_tour then output @ [str_num ext (cost solution)] else output);
          output =
            (if output_tour then output @ [join '' '' (map str_nat (tour solution))]
             else output)
      in join '', '' output)"

definition run ::
  "('m, 'vc, 'x) externals \<Rightarrow> graph \<Rightarrow> string \<Rightarrow> pynum \<Rightarrow> bool \<Rightarrow> bool \<Rightarrow>
     event list \<Rightarrow> event list \<times> 'x exn option" where
  "run ext g algo beta compute_tour output_tour w =
     (let w = w @ [Enter_run beta];
          w = w @ [Print (if compute_tour then ''Using exact computation''
                          else ''Using dummy tour'')];
          exact_algo = (if compute_tour then concorde_asym ext else dummy_oracle)
      in if algo = ''treedoubling'' then
           (let w = w @ [Print ''About to run treedoubling'']
            in case g_treedoubling ext g exact_algo beta of
                 Inl e \<Rightarrow> (w, Some (Foreign e))
               | Inr solution \<Rightarrow>
                   (w @ [Print (format_output ext solution (length (nodes g)) beta
                                  compute_tour output_tour)], None))
         else if algo = ''christofides'' then
           (let w = w @ [Print ''About to run christofides'']
            in case g_christofides ext g exact_algo (vertex_cover ext) beta of
                 Inl e \<Rightarrow> (w, Some (Foreign e))
               | Inr solution \<Rightarrow>
                   (w @ [Print (format_output ext solution (length (nodes g)) beta
                                  compute_tour output_tour)], None))
         else (w, Some (ValueError (''invalid algo: '' @ algo))))"

text \<open>The \<open>while True\<close> loop of \<open>multibeta\<close> (lines 41 to 53); \<open>asym_ratio\<close> is the loop
  variable.\<close>

function multibeta_loop ::
  "('m, 'vc, 'x) externals \<Rightarrow> graph \<Rightarrow> string \<Rightarrow> bool \<Rightarrow> bool \<Rightarrow> rat list \<Rightarrow> rat \<Rightarrow>
     event list \<Rightarrow> event list \<times> 'x exn option" where
  "multibeta_loop ext g algo compute_tour output_tour facs asym_ratio w =
     (let beta_index = py_round (asym_ratio * of_nat (length facs))
      in case (if int (length facs) \<le> beta_index then Inr (PyInt 1)
               else map_sum id PyFloat (py_getitem facs beta_index)) of
           Inl e \<Rightarrow> (w, Some e)
         | Inr beta \<Rightarrow>
             (case run ext g algo beta compute_tour output_tour w of
                (w', Some e) \<Rightarrow> (w', Some e)
              | (w', None) \<Rightarrow>
                  if 0 < py_round (asym_ratio * of_nat (length facs))
                  then multibeta_loop ext g algo compute_tour output_tour facs
                         (asym_ratio / 2) w'
                  else (w', None)))"
  by pat_completeness auto

termination
proof (relation "measure (\<lambda>(ext, g, algo, ct, ot, facs, r, w). nat \<lceil>2 * (r * of_nat (length facs))\<rceil>)",
    goal_cases)
  case 1
  show ?case by simp
next
  case (2 ext g algo ct ot facs r w bi beta w' y)
  define x where "x = r * of_nat (length facs)"
  from 2 have pos: "0 < py_round x" by (simp add: x_def)
  have half: "1 / 2 < x"
  proof (rule ccontr)
    assume "\<not> 1 / 2 < x"
    then have le: "x \<le> 1 / 2" by simp
    then have "x < 1" by simp
    then have "\<lfloor>x\<rfloor> < 1" by (simp add: floor_less_iff)
    then have f0: "\<lfloor>x\<rfloor> \<le> 0" by simp
    show False
    proof (cases "\<lfloor>x\<rfloor> = 0")
      case True
      with le pos show False by (simp add: py_round_def Let_def split: if_splits)
    next
      case False
      with f0 have "\<lfloor>x\<rfloor> \<le> - 1" by arith
      with pos show False by (simp add: py_round_def Let_def split: if_splits)
    qed
  qed
  have "of_int \<lceil>x\<rceil> < 2 * x"
  proof (cases "x \<le> 1")
    case True
    with half have "\<lceil>x\<rceil> = 1" by (intro ceiling_unique) auto
    with half show ?thesis by simp
  next
    case False
    with ceiling_correct [of x] show ?thesis by linarith
  qed
  then have "\<lceil>x\<rceil> < \<lceil>2 * x\<rceil>" by (simp add: less_ceiling_iff)
  moreover from half have "0 < \<lceil>2 * x\<rceil>" by (simp add: less_ceiling_iff)
  ultimately have "nat \<lceil>x\<rceil> < nat \<lceil>2 * x\<rceil>" by simp
  then show ?case by (simp add: x_def)
qed

declare multibeta_loop.simps [simp del]

definition multibeta ::
  "('m, 'vc, 'x) externals \<Rightarrow> 'm \<Rightarrow> string \<Rightarrow> bool \<Rightarrow> bool \<Rightarrow> event list \<Rightarrow>
     event list \<times> 'x exn option" where
  \<open>multibeta ext matrix algo compute_tour output_tour w =
     (let g = to_graph ext matrix;
          w = w @ [Print (if compute_tour then ''Using exact computation''
                          else ''Using dummy tour'')];
          exact_algo = (if compute_tour then concorde_asym ext else dummy_oracle);
          w = w @ [Print ''About to print "format_output" line?'']
      in case exact_algo g of
           Inl e \<Rightarrow> (w, Some (Foreign e))
         | Inr r \<Rightarrow>
             (let w = w @ [Print (format_output ext
                                    \<lparr>cost = cost r, tour = tour r,
                                     kernel_size = length (nodes g)\<rparr>
                                    (length (nodes g)) (PyInt 0) compute_tour output_tour)];
                  facs = sorted_reverse (asymmetry_factors ext matrix);
                  asym_ratio = 1
              in multibeta_loop ext g algo compute_tour output_tour facs asym_ratio w))\<close>

text \<open>The loop \<open>for beta in args.beta_list: run(...)\<close> of \<open>main\<close>.\<close>

fun run_each ::
  "('m, 'vc, 'x) externals \<Rightarrow> graph \<Rightarrow> string \<Rightarrow> pynum list \<Rightarrow> bool \<Rightarrow> bool \<Rightarrow>
     event list \<Rightarrow> event list \<times> 'x exn option" where
  "run_each ext g algo [] compute_tour output_tour w = (w, None)"
| "run_each ext g algo (beta # betas) compute_tour output_tour w =
     (case run ext g algo beta compute_tour output_tour w of
        (w', Some e) \<Rightarrow> (w', Some e)
      | (w', None) \<Rightarrow> run_each ext g algo betas compute_tour output_tour w')"

text \<open>The header of \<open>main\<close> (lines 147 to 151).\<close>

definition header_fields :: "bool \<Rightarrow> bool \<Rightarrow> string list" where
  "header_fields compute_tour output_tour =
     (let fields = [''beta'', ''graph_size'', ''kernel_size''];
          fields = (if compute_tour then fields @ [''tour_cost''] else fields);
          fields = (if output_tour then fields @ [''tour''] else fields)
      in fields)"

text \<open>\<open>main\<close>, with \<open>sys.argv\<close> as the argument \<open>argv\<close>.\<close>

definition main ::
  "('m, 'vc, 'x) externals \<Rightarrow> string list \<Rightarrow> event list \<Rightarrow> event list \<times> 'x exn option" where
  "main ext argv w =
     (if length argv = 1 then (w @ [Print_help], Some SystemExit)
      else case parse_args ext argv of
        Inl e \<Rightarrow> (w, Some e)
      | Inr args \<Rightarrow>
          (let w = w @ [Print ''Parsed args, about to parse matrix''];
               w = w @ [Read_graph (arg_graph args)]
           in case parse ext (arg_graph args) of
                Inl e \<Rightarrow> (w, Some (Foreign e))
              | Inr matrix \<Rightarrow>
                  (let w = w @ [Print ''Parsed matrix, about to process matrix''];
                       matrix = remove_dead_nodes ext matrix;
                       matrix = metricize_cost_matrix ext matrix;
                       g = to_graph ext matrix;
                       w = w @ [Print (join '', ''
                                  (header_fields (arg_compute_tour args) (arg_output_tour args)))];
                       w = w @ [Print ''About to run'']
                   in if arg_multibeta args
                      then multibeta ext matrix (arg_algo args) (arg_compute_tour args)
                             (arg_output_tour args) w
                      else (let g = to_graph ext matrix
                            in run_each ext g (arg_algo args) (arg_beta_list args)
                                 (arg_compute_tour args) (arg_output_tour args) w))))"

section \<open>Observations on traces\<close>

text \<open>The \<open>beta\<close> arguments of the calls of \<open>run\<close> that a trace records, in order.\<close>

fun run_betas :: "event list \<Rightarrow> pynum list" where
  "run_betas [] = []"
| "run_betas (Enter_run b # es) = b # run_betas es"
| "run_betas (e # es) = run_betas es"

text \<open>The \<open>beta\<close> that one iteration of the loop of \<open>multibeta\<close> selects when the ratio
  is \<open>r\<close> and is not negative (lines 42 to 46).\<close>

definition select_beta :: "rat list \<Rightarrow> rat \<Rightarrow> pynum" where
  "select_beta facs r =
     (if int (length facs) \<le> py_round (r * of_nat (length facs)) then PyInt 1
      else PyFloat (facs ! nat (py_round (r * of_nat (length facs)))))"

text \<open>The columns of a result line, each with the name that the header of \<open>main\<close> gives
  it.\<close>

definition output_columns ::
  "('m, 'vc, 'x) externals \<Rightarrow> solution \<Rightarrow> nat \<Rightarrow> pynum \<Rightarrow> bool \<Rightarrow> bool \<Rightarrow> (string \<times> string) list" where
  "output_columns ext solution graph_size beta compute_tour output_tour =
     [(''beta'', str_num ext beta), (''graph_size'', str_nat graph_size),
      (''kernel_size'', str_nat (kernel_size solution))]
     @ (if compute_tour then [(''tour_cost'', str_num ext (cost solution))] else [])
     @ (if output_tour then [(''tour'', join '' '' (map str_nat (tour solution)))] else [])"

section \<open>An instance of the external functions\<close>

text \<open>A cost matrix as a list of rows, and the graph on its indices.\<close>

definition matrix_graph :: "rat list list \<Rightarrow> graph" where
  "matrix_graph m = \<lparr>nodes = [0..<length m], weight = (\<lambda>u v. m ! u ! v)\<rparr>"

text \<open>Modelled from the spec: \<open>check_symmetry_metric.asymmetry_factors\<close> is defined outside
  \<open>main.py\<close>. The data model gives one factor per unordered node pair; the factor here
  is the ratio of the larger to the smaller directed cost, the definition whose range, at
  least 1, agrees with the help text of \<open>main\<close>.\<close>

definition ratio_factors :: "rat list list \<Rightarrow> rat list" where
  "ratio_factors m =
     concat (map (\<lambda>i. map (\<lambda>j. max (m ! i ! j) (m ! j ! i) / min (m ! i ! j) (m ! j ! i))
                          [Suc i..<length m]) [0..<length m])"

text \<open>An extender that keeps the whole graph as the kernel and returns the tour of the
  exact oracle; it stands for \<open>g_treedoubling\<close> and \<open>g_christofides\<close> in the instance.\<close>

definition whole_kernel_extender ::
  "graph \<Rightarrow> (graph \<Rightarrow> unit + oracle_result) \<Rightarrow> pynum \<Rightarrow> unit + solution" where
  "whole_kernel_extender g exact_algo beta =
     (case exact_algo g of
        Inl e \<Rightarrow> Inl e
      | Inr r \<Rightarrow> Inr \<lparr>cost = cost r, tour = tour r, kernel_size = length (nodes g)\<rparr>)"

text \<open>The instance: the arguments of \<open>main.py -t --tour g.csv\<close>, a file that holds a matrix
  of two nodes, an exact solver that returns the nodes in their order with the cost of
  that tour, and one rendering for every float, which the examples use for \<open>1.5\<close> only.
  The factors are a parameter of the instance.\<close>

definition example_externals ::
  "(rat list list \<Rightarrow> rat list) \<Rightarrow> (rat list list, unit, unit) externals" where
  "example_externals factors =
     \<lparr>parse_args = (\<lambda>argv. Inr \<lparr>arg_graph = argv ! 1, arg_algo = ''treedoubling'',
                                 arg_compute_tour = True, arg_output_tour = True,
                                 arg_beta_list = [PyInt 1], arg_multibeta = False\<rparr>),
      parse = (\<lambda>path. Inr [[0, 1], [2, 0]]),
      remove_dead_nodes = (\<lambda>m. m),
      metricize_cost_matrix = (\<lambda>m. m),
      to_graph = matrix_graph,
      asymmetry_factors = factors,
      concorde_asym = (\<lambda>g. Inr \<lparr>cost = PyFloat (tour_cost (nodes g) g), tour = nodes g\<rparr>),
      vertex_cover = (),
      g_treedoubling = whole_kernel_extender,
      g_christofides = (\<lambda>g exact_algo vc beta. whole_kernel_extender g exact_algo beta),
      str_float = (\<lambda>q. ''1.5'')\<rparr>"

section \<open>The extenders\<close>

text \<open>Modelled from the spec: \<open>treedoubling.g_treedoubling\<close> and
  \<open>christofides.g_christofides\<close> are defined outside \<open>main.py\<close>. The definitions of
  this section follow the component design of the specification: the kernelizer, the
  tree-doubling extender, the Christofides-style extender, their shared shortcutting, and
  the rule of the error handling design that an extender fails rather than return a tour
  that does not place every node. What the specification leaves to an oracle or to a
  standard algorithm it does not fix is a field of \<open>construction\<close>.\<close>

text \<open>Modelled from the spec: the failures of an extender, a structural error (no spanning
  structure, or a node that cannot be placed) and an invariant violation (a vertex cover
  that does not cover).\<close>

datatype failure = Structural_error | Invariant_violation

text \<open>Modelled from the spec: a spanning tree, with its nodes, its edges and the closed
  walk that traverses every tree edge twice, once in each direction.\<close>

datatype rose = Rose nat "rose list"

fun rose_root :: "rose \<Rightarrow> nat" where
  "rose_root (Rose v ts) = v"

fun rose_nodes :: "rose \<Rightarrow> nat list" where
  "rose_nodes (Rose v ts) = v # concat (map rose_nodes ts)"

fun rose_edges :: "rose \<Rightarrow> (nat \<times> nat) list" where
  "rose_edges (Rose v ts) = concat (map (\<lambda>t. (v, rose_root t) # rose_edges t) ts)"

fun doubled_walk :: "rose \<Rightarrow> nat list" where
  "doubled_walk (Rose v ts) = v # concat (map (\<lambda>t. doubled_walk t @ [v]) ts)"

text \<open>Modelled from the spec: the nodes of odd degree in the tree, the conflict graph over
  them (every pairing is feasible in a metric graph), the test that a cover touches every
  edge, and the edges of a closed tour.\<close>

fun odd_degree_below :: "bool \<Rightarrow> rose \<Rightarrow> nat list" where
  "odd_degree_below is_root (Rose v ts) =
     (if odd (length ts + (if is_root then 0 else 1)) then [v] else [])
     @ concat (map (odd_degree_below False) ts)"

definition odd_degree_nodes :: "rose \<Rightarrow> nat list" where
  "odd_degree_nodes t = odd_degree_below True t"

definition pairings :: "nat list \<Rightarrow> (nat \<times> nat) list" where
  "pairings vs = concat (map (\<lambda>i. map (\<lambda>j. (vs ! i, vs ! j)) [Suc i..<length vs]) [0..<length vs])"

definition covers :: "(nat \<times> nat) list \<Rightarrow> nat list \<Rightarrow> bool" where
  "covers es cover = list_all (\<lambda>(u, v). u \<in> set cover \<or> v \<in> set cover) es"

definition tour_edges :: "nat list \<Rightarrow> (nat \<times> nat) list" where
  "tour_edges t = map (\<lambda>i. (t ! i, t ! ((i + 1) mod length t))) [0..<length t]"

text \<open>Modelled from the spec: the parts that the specification names without fixing them:
  the asymmetry factor of a pair, the construction of the minimum spanning tree (\<open>None\<close>
  when the graph is disconnected), the vertex cover oracle, the connective edges derived
  from a cover, and the Eulerian-circuit algorithm, which is given a start node and the
  edges of the multigraph.\<close>

record construction =
  pair_factor :: "graph \<Rightarrow> nat \<Rightarrow> nat \<Rightarrow> rat"
  spanning_tree :: "graph \<Rightarrow> nat list \<Rightarrow> rose option"
  cover_oracle :: "(nat \<times> nat) list \<Rightarrow> nat list"
  connective_edges :: "nat list \<Rightarrow> (nat \<times> nat) list"
  eulerian_circuit :: "nat \<Rightarrow> (nat \<times> nat) list \<Rightarrow> nat list"

text \<open>Modelled from the spec: the kernelizer marks both nodes of every pair whose factor
  exceeds beta; a factor equal to beta does not put the pair into the kernel.\<close>

definition kernel_nodes :: "construction \<Rightarrow> graph \<Rightarrow> rat \<Rightarrow> nat list" where
  "kernel_nodes c g beta =
     filter (\<lambda>u. list_ex (\<lambda>v. v \<noteq> u \<and> beta < pair_factor c g u v) (nodes g)) (nodes g)"

text \<open>Modelled from the spec: the kernel tour is spliced in where the walk first visits a
  kernel node, and the other visits of kernel nodes are dropped.\<close>

fun splice :: "nat list \<Rightarrow> nat list \<Rightarrow> nat list \<Rightarrow> nat list" where
  "splice kern kernel_tour [] = []"
| "splice kern kernel_tour (v # walk) =
     (if v \<in> set kern then kernel_tour @ filter (\<lambda>u. u \<notin> set kern) walk
      else v # splice kern kernel_tour walk)"

text \<open>Modelled from the spec: shortcutting keeps a node at its first occurrence in the
  walk only, with a marker set of the nodes visited so far.\<close>

fun shortcut :: "nat list \<Rightarrow> nat list \<Rightarrow> nat list" where
  "shortcut visited [] = []"
| "shortcut visited (v # walk) =
     (if v \<in> set visited then shortcut visited walk
      else v # shortcut (v # visited) walk)"

text \<open>Modelled from the spec: no silent truncation. The output tour has to hold every node
  of the graph and no other.\<close>

definition places_every_node :: "graph \<Rightarrow> nat list \<Rightarrow> bool" where
  "places_every_node g t \<longleftrightarrow>
     list_all (\<lambda>v. v \<in> set t) (nodes g) \<and> list_all (\<lambda>v. v \<in> set (nodes g)) t"

text \<open>Modelled from the spec: the tree-doubling extender \<open>extend(graph, kernel, kernelTour)\<close>.\<close>

definition tree_doubling_extend ::
  "construction \<Rightarrow> graph \<Rightarrow> nat list \<Rightarrow> nat list \<Rightarrow> failure + nat list" where
  "tree_doubling_extend c g kern kernel_tour =
     (case spanning_tree c g kern of
        None \<Rightarrow> Inl Structural_error
      | Some t \<Rightarrow>
          (let walk = doubled_walk t;
               walk = splice kern kernel_tour walk;
               tour = shortcut [] walk
           in if places_every_node g tour then Inr tour else Inl Structural_error))"

text \<open>Modelled from the spec: the Christofides-style extender
  \<open>extend(graph, kernel, kernelTour, vertexCoverOracle)\<close>.\<close>

definition christofides_extend ::
  "construction \<Rightarrow> graph \<Rightarrow> nat list \<Rightarrow> nat list \<Rightarrow> failure + nat list" where
  "christofides_extend c g kern kernel_tour =
     (case spanning_tree c g kern of
        None \<Rightarrow> Inl Structural_error
      | Some t \<Rightarrow>
          (let conflict = pairings (odd_degree_nodes t);
               cover = cover_oracle c conflict
           in if \<not> covers conflict cover then Inl Invariant_violation
              else (let multigraph = rose_edges t @ connective_edges c cover @ tour_edges kernel_tour;
                        walk = eulerian_circuit c (rose_root t) multigraph;
                        tour = shortcut [] walk
                    in if places_every_node g tour then Inr tour else Inl Structural_error)))"

text \<open>An instance of the construction: the star around the first node as spanning tree,
  the first endpoints of the edges as cover, and the endpoints of the edges in their
  order as closed walk.\<close>

definition star_tree :: "graph \<Rightarrow> nat list \<Rightarrow> rose option" where
  "star_tree g kern =
     (case nodes g of [] \<Rightarrow> None | v # vs \<Rightarrow> Some (Rose v (map (\<lambda>u. Rose u []) vs)))"

definition example_construction :: construction where
  "example_construction =
     \<lparr>pair_factor = (\<lambda>g u v. max (weight g u v) (weight g v u) / min (weight g u v) (weight g v u)),
      spanning_tree = star_tree,
      cover_oracle = (\<lambda>es. map fst es),
      connective_edges = (\<lambda>cover. []),
      eulerian_circuit = (\<lambda>root es. root # concat (map (\<lambda>(u, v). [u, v]) es))\<rparr>"

section \<open>Auxiliary facts\<close>

lemma run_betas_append [simp]: "run_betas (xs @ ys) = run_betas xs @ run_betas ys"
  by (induction xs rule: run_betas.induct) simp_all

lemma run_trace:
  "\<exists>ev. fst (run ext g algo beta ct ot w) = w @ Enter_run beta # ev \<and> run_betas ev = []"
  by (simp add: run_def Let_def split: sum.splits)

lemma py_round_nonneg: "0 \<le> x \<Longrightarrow> 0 \<le> py_round x"
  by (simp add: py_round_def Let_def)

lemma select_beta_eq:
  assumes "0 \<le> r"
  shows "(if int (length facs) \<le> py_round (r * of_nat (length facs)) then Inr (PyInt 1)
          else map_sum id PyFloat (py_getitem facs (py_round (r * of_nat (length facs))))) =
         Inr (select_beta facs r)"
proof -
  from assms have "0 \<le> py_round (r * of_nat (length facs))" by (simp add: py_round_nonneg)
  then show ?thesis by (simp add: select_beta_def py_getitem_def)
qed

lemma loop_unfold:
  assumes "0 \<le> r"
  shows "multibeta_loop ext g algo ct ot facs r w =
     (case run ext g algo (select_beta facs r) ct ot w of
        (w', Some e) \<Rightarrow> (w', Some e)
      | (w', None) \<Rightarrow>
          if 0 < py_round (r * of_nat (length facs))
          then multibeta_loop ext g algo ct ot facs (r / 2) w'
          else (w', None))"
  by (subst multibeta_loop.simps) (simp only: Let_def select_beta_eq [OF assms] sum.case)

text \<open>Induction along the iterations of the loop, for a non-negative ratio.\<close>

lemma loop_induct [consumes 1, case_names iteration]:
  assumes r: "0 \<le> r"
    and step: "\<And>r w. 0 \<le> r \<Longrightarrow>
      (\<And>w'. run ext g algo (select_beta facs r) ct ot w = (w', None) \<Longrightarrow>
             0 < py_round (r * of_nat (length facs)) \<Longrightarrow> P (r / 2) w') \<Longrightarrow> P r w"
  shows "P r w"
  using r step
proof (induction ext g algo ct ot facs r w rule: multibeta_loop.induct)
  case (1 ext g algo ct ot facs r w)
  note nonneg = "1.prems"(1) and step = "1.prems"(2)
  show ?case
  proof (rule step [OF nonneg])
    fix w'
    assume a: "run ext g algo (select_beta facs r) ct ot w = (w', None)"
      and b: "0 < py_round (r * of_nat (length facs))"
    from nonneg have half: "0 \<le> r / 2" by simp
    show "P (r / 2) w'"
      by (rule "1.IH" [OF refl select_beta_eq [OF nonneg] a [symmetric] refl b half])
        (rule step)
  qed
qed

lemma loop_betas:
  assumes "0 \<le> r"
  shows "\<exists>bs. run_betas (fst (multibeta_loop ext g algo ct ot facs r w)) = run_betas w @ bs \<and>
        bs \<noteq> [] \<and>
        (\<forall>k<length bs. bs ! k = select_beta facs (r / 2 ^ k)) \<and>
        (\<forall>k. Suc k < length bs \<longrightarrow> 0 < py_round (r / 2 ^ k * of_nat (length facs))) \<and>
        (snd (multibeta_loop ext g algo ct ot facs r w) = None \<longrightarrow>
           \<not> 0 < py_round (r / 2 ^ (length bs - 1) * of_nat (length facs)))"
  using assms
proof (induction r w rule: loop_induct [where ext = ext and g = g and algo = algo and ct = ct and ot = ot and facs = facs])
  case (iteration r w)
  let ?i = "py_round (r * of_nat (length facs))"
  let ?beta = "select_beta facs r"
  obtain w' x where res: "run ext g algo ?beta ct ot w = (w', x)"
    by (cases "run ext g algo ?beta ct ot w")
  from run_trace [of ext g algo ?beta ct ot w] res
  have w': "run_betas w' = run_betas w @ [?beta]" by auto
  show ?case
  proof (cases "x = None \<and> 0 < ?i")
    case False
    then have out: "multibeta_loop ext g algo ct ot facs r w = (w', x)"
      using res by (subst loop_unfold [OF \<open>0 \<le> r\<close>]) (auto split: option.splits)
    show ?thesis
      using out w' False by (intro exI [of _ "[?beta]"]) auto
  next
    case True
    then have out: "multibeta_loop ext g algo ct ot facs r w =
        multibeta_loop ext g algo ct ot facs (r / 2) w'"
      using res by (subst loop_unfold [OF \<open>0 \<le> r\<close>]) simp
    from True res have "run ext g algo ?beta ct ot w = (w', None)" "0 < ?i" by simp_all
    from iteration.IH [OF this]
    obtain bs where bs: "run_betas (fst (multibeta_loop ext g algo ct ot facs (r / 2) w')) = run_betas w' @ bs"
      "bs \<noteq> []"
      "\<And>k. k < length bs \<Longrightarrow> bs ! k = select_beta facs (r / 2 / 2 ^ k)"
      "\<And>k. Suc k < length bs \<Longrightarrow> 0 < py_round (r / 2 / 2 ^ k * of_nat (length facs))"
      "snd (multibeta_loop ext g algo ct ot facs (r / 2) w') = None \<Longrightarrow>
         \<not> 0 < py_round (r / 2 / 2 ^ (length bs - 1) * of_nat (length facs))"
      by auto
    have half: "\<And>k. r / 2 / 2 ^ k = r / 2 ^ Suc k" by simp
    have nth: "\<forall>k<length (?beta # bs). (?beta # bs) ! k = select_beta facs (r / 2 ^ k)"
    proof (intro allI impI)
      fix k assume "k < length (?beta # bs)"
      then show "(?beta # bs) ! k = select_beta facs (r / 2 ^ k)"
        using bs(3) [of "k - 1"] half [of "k - 1"] by (cases k) simp_all
    qed
    have cont: "\<forall>k. Suc k < length (?beta # bs) \<longrightarrow> 0 < py_round (r / 2 ^ k * of_nat (length facs))"
    proof (intro allI impI)
      fix k assume "Suc k < length (?beta # bs)"
      then show "0 < py_round (r / 2 ^ k * of_nat (length facs))"
        using bs(4) [of "k - 1"] half [of "k - 1"] \<open>0 < ?i\<close> by (cases k) simp_all
    qed
    have stop: "snd (multibeta_loop ext g algo ct ot facs r w) = None \<longrightarrow>
           \<not> 0 < py_round (r / 2 ^ (length (?beta # bs) - 1) * of_nat (length facs))"
    proof
      assume "snd (multibeta_loop ext g algo ct ot facs r w) = None"
      with out have "snd (multibeta_loop ext g algo ct ot facs (r / 2) w') = None" by simp
      from bs(5) [OF this] half [of "length bs - 1"] \<open>bs \<noteq> []\<close>
      show "\<not> 0 < py_round (r / 2 ^ (length (?beta # bs) - 1) * of_nat (length facs))"
        by (cases bs) simp_all
    qed
    show ?thesis
      using out bs(1) w' nth cont stop by (intro exI [of _ "?beta # bs"]) simp
  qed
qed

lemma py_round_of_nat [simp]: "py_round (of_nat n) = int n"
  by (simp add: py_round_def Let_def)

lemma py_round_mono:
  assumes "x \<le> y"
  shows "py_round x \<le> py_round y"
proof (cases "\<lfloor>x\<rfloor> = \<lfloor>y\<rfloor>")
  case True
  with assms show ?thesis by (simp add: py_round_def Let_def)
next
  case False
  with assms floor_mono [of x y] have "\<lfloor>x\<rfloor> + 1 \<le> \<lfloor>y\<rfloor>" by simp
  moreover have "py_round x \<le> \<lfloor>x\<rfloor> + 1" by (simp add: py_round_def Let_def)
  moreover have "\<lfloor>y\<rfloor> \<le> py_round y" by (simp add: py_round_def Let_def)
  ultimately show ?thesis by linarith
qed

lemma py_round_small: 
  assumes "0 \<le> x" "x \<le> 1 / 2" shows "py_round x = 0"
proof -
  from assms have "\<lfloor>x\<rfloor> = 0" by (intro floor_unique) auto
  with assms show ?thesis by (simp add: py_round_def Let_def)
qed

lemma py_round_half_less:
  assumes "0 < n"
  shows "py_round (of_nat n / 2) < int n"
proof (cases "n = 1")
  case True
  then show ?thesis by (simp add: py_round_small)
next
  case False
  with assms have n2: "2 \<le> n" by simp
  define x :: rat where "x = of_nat n / 2"
  have "of_int (py_round x) \<le> x + 1 / 2"
  proof -
    have fl: "of_int \<lfloor>x\<rfloor> \<le> x" by simp
    consider "x - of_int \<lfloor>x\<rfloor> < 1 / 2" | "1 / 2 < x - of_int \<lfloor>x\<rfloor>"
      | "x - of_int \<lfloor>x\<rfloor> = 1 / 2" by linarith
    then show ?thesis
    proof cases
      case 1
      then have "py_round x = \<lfloor>x\<rfloor>" by (simp add: py_round_def Let_def)
      then have "(of_int (py_round x) :: rat) = of_int \<lfloor>x\<rfloor>" by simp
      with fl show ?thesis by linarith
    next
      case 2
      then have "py_round x = \<lfloor>x\<rfloor> + 1" by (simp add: py_round_def Let_def)
      then have "(of_int (py_round x) :: rat) = of_int \<lfloor>x\<rfloor> + 1" by simp
      with 2 show ?thesis by linarith
    next
      case 3
      then have "py_round x = \<lfloor>x\<rfloor> \<or> py_round x = \<lfloor>x\<rfloor> + 1"
        by (simp add: py_round_def Let_def)
      then have "(of_int (py_round x) :: rat) = of_int \<lfloor>x\<rfloor> \<or>
          (of_int (py_round x) :: rat) = of_int \<lfloor>x\<rfloor> + 1" by auto
      with 3 show ?thesis by linarith
    qed
  qed
  also have "x + 1 / 2 < of_nat n" using n2 by (simp add: x_def field_simps)
  finally have "(of_int (py_round x) :: rat) < of_int (int n)" by simp
  then show ?thesis unfolding x_def by (simp only: of_int_less_iff)
qed

lemma ratio_index_bounds:
  assumes "0 < n" "0 < k"
  shows "0 \<le> py_round (1 / 2 ^ k * of_nat n)" "py_round (1 / 2 ^ k * of_nat n) < int n"
proof -
  show "0 \<le> py_round (1 / 2 ^ k * of_nat n)" by (rule py_round_nonneg) simp
  from \<open>0 < k\<close> obtain j where k: "k = Suc j" by (cases k) auto
  have "(1::rat) / 2 ^ k \<le> 1 / 2" unfolding k by (simp add: field_simps)
  then have "1 / 2 ^ k * of_nat n \<le> 1 / 2 * (of_nat n :: rat)"
    by (intro mult_right_mono) simp_all
  then have "py_round (1 / 2 ^ k * of_nat n) \<le> py_round (of_nat n / 2)"
    by (intro py_round_mono) simp
  with py_round_half_less [OF \<open>0 < n\<close>] show "py_round (1 / 2 ^ k * of_nat n) < int n" by simp
qed

lemma ratio_index_antimono:
  assumes "j \<le> k"
  shows "py_round (1 / 2 ^ k * of_nat n) \<le> py_round (1 / 2 ^ j * of_nat n)"
proof (rule py_round_mono)
  from assms have "(2::rat) ^ j \<le> 2 ^ k" by (intro power_increasing) simp_all
  then have "(1::rat) / 2 ^ k \<le> 1 / 2 ^ j" by (simp add: field_simps)
  then show "1 / 2 ^ k * of_nat n \<le> 1 / 2 ^ j * (of_nat n :: rat)"
    by (intro mult_right_mono) simp_all
qed

lemma ratio_index_zero: "py_round (1 / 2 ^ Suc n * of_nat n) = 0"
proof (rule py_round_small)
  show "0 \<le> 1 / 2 ^ Suc n * (of_nat n :: rat)" by simp
  have "n < 2 ^ n" by (rule less_exp)
  then have "(of_nat n :: rat) \<le> of_nat (2 ^ n)" by (simp only: of_nat_le_iff)
  then have "(of_nat n :: rat) \<le> 2 ^ n" by simp
  then show "1 / 2 ^ Suc n * (of_nat n :: rat) \<le> 1 / 2" by (simp add: field_simps)
qed

lemma sorted_reverse_length [simp]: "length (sorted_reverse xs) = length xs"
  by (simp add: sorted_reverse_def)

lemma sorted_reverse_set [simp]: "set (sorted_reverse xs) = set xs"
  by (simp add: sorted_reverse_def)

lemma sorted_reverse_nth_mono:
  assumes "i \<le> j" "j < length xs"
  shows "sorted_reverse xs ! j \<le> sorted_reverse xs ! i"
proof -
  have "sorted (rev (sorted_reverse xs))" by (simp add: sorted_reverse_def)
  with assms show ?thesis by (metis sorted_rev_nth_mono sorted_reverse_length)
qed

lemma loop_no_raise:
  assumes "0 \<le> r" and ok: "\<And>beta w'. snd (run ext g algo beta ct ot w') = None"
  shows "snd (multibeta_loop ext g algo ct ot facs r w) = None"
  using assms(1)
proof (induction r w rule: loop_induct [where ext = ext and g = g and algo = algo and ct = ct and ot = ot and facs = facs])
  case (iteration r w)
  obtain w' x where res: "run ext g algo (select_beta facs r) ct ot w = (w', x)"
    by (cases "run ext g algo (select_beta facs r) ct ot w")
  with ok [of "select_beta facs r" w] have x: "x = None" by simp
  show ?case
    using res x iteration.IH [of w'] by (subst loop_unfold [OF \<open>0 \<le> r\<close>]) simp
qed

lemma multibeta_raises:
  assumes "(if ct then concorde_asym ext else dummy_oracle) (to_graph ext matrix) = Inl e"
  shows "multibeta ext matrix algo ct ot w =
     (w @ [Print (if ct then ''Using exact computation'' else ''Using dummy tour''),
           Print (''About to print '' @ [CHR 0x22] @ ''format_output'' @ [CHR 0x22] @ '' line?'')],
      Some (Foreign e))"
  using assms by (simp add: multibeta_def Let_def split: if_splits)

lemma multibeta_returns:
  assumes "(if ct then concorde_asym ext else dummy_oracle) (to_graph ext matrix) = Inr r"
  shows "multibeta ext matrix algo ct ot w =
     multibeta_loop ext (to_graph ext matrix) algo ct ot
       (sorted_reverse (asymmetry_factors ext matrix)) 1
       (w @ [Print (if ct then ''Using exact computation'' else ''Using dummy tour''),
             Print (''About to print '' @ [CHR 0x22] @ ''format_output'' @ [CHR 0x22] @ '' line?''),
             Print (format_output ext \<lparr>cost = cost r, tour = tour r,
                      kernel_size = length (nodes (to_graph ext matrix))\<rparr>
                      (length (nodes (to_graph ext matrix))) (PyInt 0) ct ot)])"
  using assms by (simp add: multibeta_def Let_def split: if_splits)

lemma multibeta_betas:
  "\<exists>bs. run_betas (fst (multibeta ext matrix algo ct ot w)) = run_betas w @ bs \<and>
        (\<forall>k<length bs. bs ! k = select_beta (sorted_reverse (asymmetry_factors ext matrix)) (1 / 2 ^ k)) \<and>
        (\<forall>k. Suc k < length bs \<longrightarrow>
           0 < py_round (1 / 2 ^ k * of_nat (length (asymmetry_factors ext matrix))))"
proof (cases "(if ct then concorde_asym ext else dummy_oracle) (to_graph ext matrix)")
  case (Inl e)
  show ?thesis by (intro exI [of _ "[]"]) (simp add: multibeta_raises [OF Inl])
next
  case (Inr r)
  have "(0::rat) \<le> 1" by simp
  from loop_betas [OF this]
  obtain bs where bs:
    "run_betas (fst (multibeta ext matrix algo ct ot w)) =
       run_betas (w @ [Print (if ct then ''Using exact computation'' else ''Using dummy tour''),
             Print (''About to print '' @ [CHR 0x22] @ ''format_output'' @ [CHR 0x22] @ '' line?''),
             Print (format_output ext \<lparr>cost = cost r, tour = tour r,
                      kernel_size = length (nodes (to_graph ext matrix))\<rparr>
                      (length (nodes (to_graph ext matrix))) (PyInt 0) ct ot)]) @ bs"
    "\<forall>k<length bs. bs ! k = select_beta (sorted_reverse (asymmetry_factors ext matrix)) (1 / 2 ^ k)"
    "\<forall>k. Suc k < length bs \<longrightarrow>
           0 < py_round (1 / 2 ^ k * of_nat (length (sorted_reverse (asymmetry_factors ext matrix))))"
    unfolding multibeta_returns [OF Inr] by blast
  from bs(1) have "run_betas (fst (multibeta ext matrix algo ct ot w)) = run_betas w @ bs"
    by simp
  with bs(2,3) show ?thesis by (intro exI [of _ bs]) simp
qed

lemma str_int_nat [simp]: "str_int (int n) = str_nat n"
  by (simp add: str_int_def)

lemma format_output_eq:
  "format_output ext solution graph_size beta compute_tour output_tour =
     join '', '' (map snd (output_columns ext solution graph_size beta compute_tour output_tour))"
  by (simp add: format_output_def output_columns_def)

lemma header_fields_eq:
  "header_fields compute_tour output_tour =
     map fst (output_columns ext solution graph_size beta compute_tour output_tour)"
  by (simp add: header_fields_def output_columns_def)

lemma str_nat_digits: "set (str_nat n) \<subseteq> set ''0123456789''"
proof (induction n rule: str_nat.induct)
  case (1 n)
  have d: "\<And>k. k < 10 \<Longrightarrow> ''0123456789'' ! k \<in> set ''0123456789''"
    by (rule nth_mem) simp
  show ?case
  proof (cases "n < 10")
    case True
    then show ?thesis using d [of n] by (subst str_nat.simps) simp
  next
    case False
    with 1 have "set (str_nat (n div 10)) \<subseteq> set ''0123456789''" by simp
    moreover have "''0123456789'' ! (n mod 10) \<in> set ''0123456789''" by (rule d) simp
    ultimately show ?thesis using False by (subst str_nat.simps) simp
  qed
qed

lemma str_nat_no_newline: "CHR 0x0A \<notin> set (str_nat n)"
  using str_nat_digits [of n] by auto

lemma join_chars: "set (join sep xs) \<subseteq> set sep \<union> \<Union> (set ` set xs)"
  by (induction sep xs rule: join.induct) auto

lemma str_num_no_newline:
  assumes "\<And>q. CHR 0x0A \<notin> set (str_float ext q)"
  shows "CHR 0x0A \<notin> set (str_num ext v)"
proof (cases v)
  case (PyInt i)
  then show ?thesis using str_nat_no_newline by (simp add: str_int_def)
next
  case (PyFloat q)
  with assms show ?thesis by simp
qed

lemma format_output_no_newline:
  assumes "\<And>q. CHR 0x0A \<notin> set (str_float ext q)"
  shows "CHR 0x0A \<notin> set (format_output ext solution graph_size beta compute_tour output_tour)"
proof
  let ?cols = "map snd (output_columns ext solution graph_size beta compute_tour output_tour)"
  assume "CHR 0x0A \<in> set (format_output ext solution graph_size beta compute_tour output_tour)"
  then have "CHR 0x0A \<in> set (join '', '' ?cols)" by (simp only: format_output_eq)
  with join_chars [of "'', ''" ?cols]
  have "CHR 0x0A \<in> set '', '' \<union> \<Union> (set ` set ?cols)" by blast
  then obtain f where f: "f \<in> set ?cols" "CHR 0x0A \<in> set f" by auto
  have tour: "CHR 0x0A \<notin> set (join '' '' (map str_nat (tour solution)))"
    using join_chars [of "'' ''" "map str_nat (tour solution)"] str_nat_no_newline by auto
  from f(1) have "f = str_num ext beta \<or> f = str_nat graph_size \<or>
      f = str_nat (kernel_size solution) \<or> f = str_num ext (cost solution) \<or>
      f = join '' '' (map str_nat (tour solution))"
    by (auto simp: output_columns_def split: if_splits)
  with f(2) str_num_no_newline [OF assms] str_nat_no_newline tour show False by auto
qed

lemma run_extends: "\<exists>ev. fst (run ext g algo beta ct ot w) = w @ ev"
  using run_trace [of ext g algo beta ct ot w] by auto

lemma loop_extends:
  assumes "0 \<le> r"
  shows "\<exists>ev. fst (multibeta_loop ext g algo ct ot facs r w) = w @ ev"
  using assms
proof (induction r w rule: loop_induct [where ext = ext and g = g and algo = algo and ct = ct and ot = ot and facs = facs])
  case (iteration r w)
  obtain w' x where res: "run ext g algo (select_beta facs r) ct ot w = (w', x)"
    by (cases "run ext g algo (select_beta facs r) ct ot w")
  with run_extends [of ext g algo "select_beta facs r" ct ot w]
  obtain ev where w': "w' = w @ ev" by auto
  show ?case
  proof (cases "x = None \<and> 0 < py_round (r * of_nat (length facs))")
    case True
    with res iteration.IH [of w'] obtain ev' where
      "fst (multibeta_loop ext g algo ct ot facs (r / 2) w') = w' @ ev'" by auto
    with True res w' show ?thesis by (subst loop_unfold [OF \<open>0 \<le> r\<close>]) simp
  next
    case False
    with res w' show ?thesis
      by (subst loop_unfold [OF \<open>0 \<le> r\<close>]) (auto split: option.splits)
  qed
qed

lemma select_beta_one [simp]: "select_beta facs 1 = PyInt 1"
  by (simp add: select_beta_def)

lemma loop_first_iteration:
  "\<exists>ev. fst (multibeta_loop ext g algo ct ot facs 1 w) = w @ Enter_run (PyInt 1) # ev"
proof -
  have r: "(0::rat) \<le> 1" by simp
  obtain w' x where res: "run ext g algo (PyInt 1) ct ot w = (w', x)"
    by (cases "run ext g algo (PyInt 1) ct ot w")
  with run_trace [of ext g algo "PyInt 1" ct ot w]
  obtain ev where w': "w' = w @ Enter_run (PyInt 1) # ev" by auto
  show ?thesis
  proof (cases "x = None \<and> 0 < py_round (1 * of_nat (length facs))")
    case True
    have "(0::rat) \<le> 1 / 2" by simp
    from loop_extends [OF this, of ext g algo ct ot facs w'] obtain ev' where
      "fst (multibeta_loop ext g algo ct ot facs (1 / 2) w') = w' @ ev'" by auto
    with True res w' show ?thesis by (subst loop_unfold [OF r]) simp
  next
    case False
    with res w' show ?thesis
      by (subst loop_unfold [OF r]) (auto split: option.splits)
  qed
qed

lemma multibeta_extends: "\<exists>ev. fst (multibeta ext matrix algo ct ot w) = w @ ev"
proof (cases "(if ct then concorde_asym ext else dummy_oracle) (to_graph ext matrix)")
  case (Inl e)
  show ?thesis by (simp add: multibeta_raises [OF Inl])
next
  case (Inr r)
  let ?w = "w @ [Print (if ct then ''Using exact computation'' else ''Using dummy tour''),
             Print (''About to print '' @ [CHR 0x22] @ ''format_output'' @ [CHR 0x22] @ '' line?''),
             Print (format_output ext \<lparr>cost = cost r, tour = tour r,
                      kernel_size = length (nodes (to_graph ext matrix))\<rparr>
                      (length (nodes (to_graph ext matrix))) (PyInt 0) ct ot)]"
  have "(0::rat) \<le> 1" by simp
  from loop_extends [OF this, of ext "to_graph ext matrix" algo ct ot
      "sorted_reverse (asymmetry_factors ext matrix)" ?w]
  obtain ev where "fst (multibeta_loop ext (to_graph ext matrix) algo ct ot
      (sorted_reverse (asymmetry_factors ext matrix)) 1 ?w) = ?w @ ev" ..
  then have "fst (multibeta ext matrix algo ct ot w) = ?w @ ev"
    by (simp only: multibeta_returns [OF Inr])
  then show ?thesis by simp
qed

lemma run_each_extends: "\<exists>ev. fst (run_each ext g algo betas ct ot w) = w @ ev"
proof (induction betas arbitrary: w)
  case Nil
  show ?case by simp
next
  case (Cons beta betas)
  obtain w' x where res: "run ext g algo beta ct ot w = (w', x)"
    by (cases "run ext g algo beta ct ot w")
  with run_extends [of ext g algo beta ct ot w] obtain ev where w': "w' = w @ ev" by auto
  show ?case
  proof (cases x)
    case None
    with res w' Cons.IH [of w'] show ?thesis by auto
  next
    case (Some e)
    with res w' show ?thesis by simp
  qed
qed

lemma main_parsed:
  assumes "length argv \<noteq> 1" "parse_args ext argv = Inr args"
    "parse ext (arg_graph args) = Inr matrix"
  shows "main ext argv w =
     (if arg_multibeta args
      then multibeta ext (metricize_cost_matrix ext (remove_dead_nodes ext matrix)) (arg_algo args)
             (arg_compute_tour args) (arg_output_tour args)
             (w @ [Print ''Parsed args, about to parse matrix'', Read_graph (arg_graph args),
                   Print ''Parsed matrix, about to process matrix'',
                   Print (join '', '' (header_fields (arg_compute_tour args) (arg_output_tour args))),
                   Print ''About to run''])
      else run_each ext (to_graph ext (metricize_cost_matrix ext (remove_dead_nodes ext matrix)))
             (arg_algo args) (arg_beta_list args) (arg_compute_tour args) (arg_output_tour args)
             (w @ [Print ''Parsed args, about to parse matrix'', Read_graph (arg_graph args),
                   Print ''Parsed matrix, about to process matrix'',
                   Print (join '', '' (header_fields (arg_compute_tour args) (arg_output_tour args))),
                   Print ''About to run'']))"
  using assms by (simp add: main_def Let_def)

lemma main_header:
  assumes "length argv \<noteq> 1" "parse_args ext argv = Inr args"
    "parse ext (arg_graph args) = Inr matrix"
  shows "\<exists>rest. fst (main ext argv w) =
     w @ [Print ''Parsed args, about to parse matrix'', Read_graph (arg_graph args),
          Print ''Parsed matrix, about to process matrix'',
          Print (join '', '' (header_fields (arg_compute_tour args) (arg_output_tour args))),
          Print ''About to run''] @ rest"
proof -
  let ?m = "metricize_cost_matrix ext (remove_dead_nodes ext matrix)"
  let ?w = "w @ [Print ''Parsed args, about to parse matrix'', Read_graph (arg_graph args),
                 Print ''Parsed matrix, about to process matrix'',
                 Print (join '', '' (header_fields (arg_compute_tour args) (arg_output_tour args))),
                 Print ''About to run'']"
  have "\<exists>ev. fst (main ext argv w) = ?w @ ev"
  proof (cases "arg_multibeta args")
    case True
    then have "main ext argv w = multibeta ext ?m (arg_algo args) (arg_compute_tour args)
        (arg_output_tour args) ?w"
      by (simp only: main_parsed [OF assms] if_True)
    then show ?thesis by (simp only: multibeta_extends)
  next
    case False
    then have "main ext argv w = run_each ext (to_graph ext ?m) (arg_algo args)
        (arg_beta_list args) (arg_compute_tour args) (arg_output_tour args) ?w"
      by (simp only: main_parsed [OF assms] if_False)
    then show ?thesis by (simp only: run_each_extends)
  qed
  then show ?thesis by simp
qed

section \<open>The result line and the header\<close>

text \<open>
  C5. For every solution, graph size, beta and pair of flags, \<open>format_output\<close> returns the
  fields beta, graph size and kernel size, then the tour cost exactly when \<open>compute_tour\<close>
  is set, then the tour as node identifiers separated by blanks exactly when \<open>output_tour\<close>
  is set, joined by a comma and a blank. The header of \<open>main\<close> names the same columns under
  the same conditions, and \<open>main\<close> prints it once the arguments and the matrix are parsed.
  The result is a single line: it holds no line feed when the rendering of floats holds none.
\<close>

theorem format_output_fields:
  "format_output ext solution graph_size beta compute_tour output_tour =
     join '', '' (map snd (output_columns ext solution graph_size beta compute_tour output_tour)) \<and>
   join '', '' (header_fields compute_tour output_tour) =
     join '', '' (map fst (output_columns ext solution graph_size beta compute_tour output_tour)) \<and>
   ((\<forall>q. CHR 0x0A \<notin> set (str_float ext q)) \<longrightarrow>
      CHR 0x0A \<notin> set (format_output ext solution graph_size beta compute_tour output_tour)) \<and>
   (\<forall>argv args matrix.
      length argv \<noteq> 1 \<and> parse_args ext argv = Inr args \<and> parse ext (arg_graph args) = Inr matrix \<longrightarrow>
      (\<exists>rest. fst (main ext argv w) =
         w @ [Print ''Parsed args, about to parse matrix'', Read_graph (arg_graph args),
              Print ''Parsed matrix, about to process matrix'',
              Print (join '', '' (map fst (output_columns ext solution graph_size beta
                       (arg_compute_tour args) (arg_output_tour args)))),
              Print ''About to run''] @ rest))"
proof (intro conjI allI impI)
  show "format_output ext solution graph_size beta compute_tour output_tour =
     join '', '' (map snd (output_columns ext solution graph_size beta compute_tour output_tour))"
    by (rule format_output_eq)
  show "join '', '' (header_fields compute_tour output_tour) =
     join '', '' (map fst (output_columns ext solution graph_size beta compute_tour output_tour))"
    by (simp only: header_fields_eq [of _ _ ext solution graph_size beta])
next
  assume "\<forall>q. CHR 0x0A \<notin> set (str_float ext q)"
  then show "CHR 0x0A \<notin> set (format_output ext solution graph_size beta compute_tour output_tour)"
    by (intro format_output_no_newline) simp
next
  fix argv args matrix
  assume a: "length argv \<noteq> 1 \<and> parse_args ext argv = Inr args \<and>
    parse ext (arg_graph args) = Inr matrix"
  from a have "length argv \<noteq> 1" "parse_args ext argv = Inr args"
    "parse ext (arg_graph args) = Inr matrix" by simp_all
  from main_header [OF this, of w]
  show "\<exists>rest. fst (main ext argv w) =
         w @ [Print ''Parsed args, about to parse matrix'', Read_graph (arg_graph args),
              Print ''Parsed matrix, about to process matrix'',
              Print (join '', '' (map fst (output_columns ext solution graph_size beta
                       (arg_compute_tour args) (arg_output_tour args)))),
              Print ''About to run''] @ rest"
    by (simp only: header_fields_eq [of _ _ ext solution graph_size beta])
qed

theorem format_output_fields_witness:
  "format_output (example_externals ratio_factors) \<lparr>cost = PyInt 7, tour = [0, 2, 1], kernel_size = 2\<rparr>
      3 (PyFloat (3 / 2)) True True = ''1.5, 3, 2, 7, 0 2 1'' \<and>
   join '', '' (header_fields True True) = ''beta, graph_size, kernel_size, tour_cost, tour'' \<and>
   CHR 0x0A \<notin> set (format_output (example_externals ratio_factors)
      \<lparr>cost = PyInt 7, tour = [0, 2, 1], kernel_size = 2\<rparr> 3 (PyFloat (3 / 2)) True True) \<and>
   (\<exists>rest. fst (main (example_externals ratio_factors) [''main.py'', ''g.csv''] []) =
      [Print ''Parsed args, about to parse matrix'', Read_graph ''g.csv'',
       Print ''Parsed matrix, about to process matrix'',
       Print ''beta, graph_size, kernel_size, tour_cost, tour'', Print ''About to run''] @ rest)"
proof -
  let ?E = "example_externals ratio_factors"
  let ?s = "\<lparr>cost = PyInt 7, tour = [0, 2, 1], kernel_size = 2\<rparr>"
  note inst = format_output_fields [of ?E ?s 3 "PyFloat (3 / 2)" True True "[]"]
  have cols: "output_columns ?E ?s 3 (PyFloat (3 / 2)) True True =
      [(''beta'', ''1.5''), (''graph_size'', ''3''), (''kernel_size'', ''2''),
       (''tour_cost'', ''7''), (''tour'', ''0 2 1'')]"
    by code_simp
  have nl: "\<forall>q. CHR 0x0A \<notin> set (str_float ?E q)"
    by (simp add: example_externals_def)
  have args: "length [''main.py'', ''g.csv''] \<noteq> 1 \<and>
      parse_args ?E [''main.py'', ''g.csv''] =
        Inr \<lparr>arg_graph = ''g.csv'', arg_algo = ''treedoubling'', arg_compute_tour = True,
             arg_output_tour = True, arg_beta_list = [PyInt 1], arg_multibeta = False\<rparr> \<and>
      parse ?E (arg_graph \<lparr>arg_graph = ''g.csv'', arg_algo = ''treedoubling'',
             arg_compute_tour = True, arg_output_tour = True, arg_beta_list = [PyInt 1],
             arg_multibeta = False\<rparr>) = Inr [[0, 1], [2, 0]]"
    by (simp add: example_externals_def)
  have cols2: "\<And>s b. map fst (output_columns ?E s 3 b True True) =
      [''beta'', ''graph_size'', ''kernel_size'', ''tour_cost'', ''tour'']"
    by (simp add: output_columns_def)
  from inst have a: "format_output ?E ?s 3 (PyFloat (3 / 2)) True True =
      join '', '' (map snd (output_columns ?E ?s 3 (PyFloat (3 / 2)) True True))" by blast
  have 1: "format_output ?E ?s 3 (PyFloat (3 / 2)) True True = ''1.5, 3, 2, 7, 0 2 1''"
    by (subst a, subst cols) simp
  from inst have b: "join '', '' (header_fields True True) =
      join '', '' (map fst (output_columns ?E ?s 3 (PyFloat (3 / 2)) True True))" by blast
  have 2: "join '', '' (header_fields True True) =
      ''beta, graph_size, kernel_size, tour_cost, tour''"
    by (subst b, subst cols) simp
  from inst nl have 3: "CHR 0x0A \<notin> set (format_output ?E ?s 3 (PyFloat (3 / 2)) True True)"
    by blast
  from inst have "\<forall>argv args matrix.
      length argv \<noteq> 1 \<and> parse_args ?E argv = Inr args \<and> parse ?E (arg_graph args) = Inr matrix \<longrightarrow>
      (\<exists>rest. fst (main ?E argv []) =
         [] @ [Print ''Parsed args, about to parse matrix'', Read_graph (arg_graph args),
              Print ''Parsed matrix, about to process matrix'',
              Print (join '', '' (map fst (output_columns ?E ?s 3 (PyFloat (3 / 2))
                       (arg_compute_tour args) (arg_output_tour args)))),
              Print ''About to run''] @ rest)" by blast
  from this [rule_format, OF args]
  have 4: "\<exists>rest. fst (main ?E [''main.py'', ''g.csv''] []) =
      [Print ''Parsed args, about to parse matrix'', Read_graph ''g.csv'',
       Print ''Parsed matrix, about to process matrix'',
       Print ''beta, graph_size, kernel_size, tour_cost, tour'', Print ''About to run''] @ rest"
    by (simp add: cols2)
  from 1 2 3 4 show ?thesis by blast
qed

section \<open>Invocation without arguments\<close>

text \<open>
  C9. When \<open>sys.argv\<close> holds the program name only, \<open>main\<close> prints the usage help and
  exits: the help is the only effect, so no graph file is read and no line is printed, and
  the outcome is \<open>SystemExit\<close>.
\<close>

theorem main_without_arguments:
  "main ext [prog] w = (w @ [Print_help], Some SystemExit)"
  by (simp add: main_def)

theorem main_without_arguments_witness:
  "main (example_externals ratio_factors) [''main.py''] [] = ([Print_help], Some SystemExit)"
  using main_without_arguments [of "example_externals ratio_factors" "''main.py''" "[]"]
  by simp

section \<open>The algorithm selector of \<open>run\<close>\<close>

text \<open>
  C6. \<open>run\<close> raises its \<open>ValueError\<close> exactly when the selector is neither
  \<open>treedoubling\<close> nor \<open>christofides\<close>; it then has printed the line that names the oracle
  and no result line. For either valid selector, once the extender has returned a solution,
  \<open>run\<close> returns normally and has printed exactly one result line, the \<open>format_output\<close> of
  that solution, after the two progress lines. An exception of the extender is not a
  \<open>ValueError\<close> of \<open>run\<close>: it is passed on as \<open>Foreign\<close>.
\<close>

theorem run_selector:
  "((\<exists>msg. snd (run ext g algo beta compute_tour output_tour w) = Some (ValueError msg)) \<longleftrightarrow>
      algo \<noteq> ''treedoubling'' \<and> algo \<noteq> ''christofides'') \<and>
   (algo \<noteq> ''treedoubling'' \<and> algo \<noteq> ''christofides'' \<longrightarrow>
      run ext g algo beta compute_tour output_tour w =
        (w @ [Enter_run beta,
              Print (if compute_tour then ''Using exact computation'' else ''Using dummy tour'')],
         Some (ValueError (''invalid algo: '' @ algo)))) \<and>
   (\<forall>solution.
      algo = ''treedoubling'' \<and>
      g_treedoubling ext g (if compute_tour then concorde_asym ext else dummy_oracle) beta =
        Inr solution \<longrightarrow>
      run ext g algo beta compute_tour output_tour w =
        (w @ [Enter_run beta,
              Print (if compute_tour then ''Using exact computation'' else ''Using dummy tour''),
              Print ''About to run treedoubling'',
              Print (format_output ext solution (length (nodes g)) beta compute_tour output_tour)],
         None)) \<and>
   (\<forall>solution.
      algo = ''christofides'' \<and>
      g_christofides ext g (if compute_tour then concorde_asym ext else dummy_oracle)
        (vertex_cover ext) beta = Inr solution \<longrightarrow>
      run ext g algo beta compute_tour output_tour w =
        (w @ [Enter_run beta,
              Print (if compute_tour then ''Using exact computation'' else ''Using dummy tour''),
              Print ''About to run christofides'',
              Print (format_output ext solution (length (nodes g)) beta compute_tour output_tour)],
         None))"
proof (intro conjI allI impI)
  show "(\<exists>msg. snd (run ext g algo beta compute_tour output_tour w) = Some (ValueError msg)) \<longleftrightarrow>
      algo \<noteq> ''treedoubling'' \<and> algo \<noteq> ''christofides''"
  proof (cases "algo = ''treedoubling''")
    case True
    then show ?thesis by (simp add: run_def Let_def split: sum.splits)
  next
    case False
    note ntd = this
    show ?thesis
    proof (cases "algo = ''christofides''")
      case True
      then show ?thesis by (simp add: run_def Let_def split: sum.splits)
    next
      case False
      with ntd show ?thesis by (simp add: run_def Let_def)
    qed
  qed
next
  assume "algo \<noteq> ''treedoubling'' \<and> algo \<noteq> ''christofides''"
  then show "run ext g algo beta compute_tour output_tour w =
        (w @ [Enter_run beta,
              Print (if compute_tour then ''Using exact computation'' else ''Using dummy tour'')],
         Some (ValueError (''invalid algo: '' @ algo)))"
    by (simp add: run_def)
next
  fix solution
  assume "algo = ''treedoubling'' \<and>
      g_treedoubling ext g (if compute_tour then concorde_asym ext else dummy_oracle) beta =
        Inr solution"
  then show "run ext g algo beta compute_tour output_tour w =
        (w @ [Enter_run beta,
              Print (if compute_tour then ''Using exact computation'' else ''Using dummy tour''),
              Print ''About to run treedoubling'',
              Print (format_output ext solution (length (nodes g)) beta compute_tour output_tour)],
         None)"
    by (simp add: run_def Let_def)
next
  fix solution
  assume "algo = ''christofides'' \<and>
      g_christofides ext g (if compute_tour then concorde_asym ext else dummy_oracle)
        (vertex_cover ext) beta = Inr solution"
  then show "run ext g algo beta compute_tour output_tour w =
        (w @ [Enter_run beta,
              Print (if compute_tour then ''Using exact computation'' else ''Using dummy tour''),
              Print ''About to run christofides'',
              Print (format_output ext solution (length (nodes g)) beta compute_tour output_tour)],
         None)"
    by (simp add: run_def Let_def)
qed

theorem run_selector_witness:
  "run (example_externals ratio_factors) (matrix_graph [[0, 1], [2, 0]]) ''treedoubling''
     (PyInt 1) False True [] =
     ([Enter_run (PyInt 1), Print ''Using dummy tour'', Print ''About to run treedoubling'',
       Print ''1, 2, 2, 0 1''], None) \<and>
   run (example_externals ratio_factors) (matrix_graph [[0, 1], [2, 0]]) ''held_karp''
     (PyInt 1) False True [] =
     ([Enter_run (PyInt 1), Print ''Using dummy tour''],
      Some (ValueError ''invalid algo: held_karp''))"
proof -
  let ?E = "example_externals ratio_factors"
  let ?g = "matrix_graph [[0, 1], [2, 0]]"
  let ?s = "\<lparr>cost = PyInt 0, tour = [0, 1], kernel_size = 2\<rparr>"
  have ext: "''treedoubling'' = ''treedoubling'' \<and>
      g_treedoubling ?E ?g (if False then concorde_asym ?E else dummy_oracle) (PyInt 1) = Inr ?s"
    by code_simp
  have line: "format_output ?E ?s (length (nodes ?g)) (PyInt 1) False True = ''1, 2, 2, 0 1''"
    by code_simp
  note td = run_selector [of ?E ?g "''treedoubling''" "PyInt 1" False True "[]",
      THEN conjunct2, THEN conjunct2, THEN conjunct1, rule_format, OF ext]
  from td
  have 1: "run ?E ?g ''treedoubling'' (PyInt 1) False True [] =
     ([Enter_run (PyInt 1), Print ''Using dummy tour'', Print ''About to run treedoubling'',
       Print ''1, 2, 2, 0 1''], None)"
    by (subst (asm) line) simp
  have neq: "''held_karp'' \<noteq> ''treedoubling'' \<and> ''held_karp'' \<noteq> ''christofides''" by simp
  note hk = run_selector [of ?E ?g "''held_karp''" "PyInt 1" False True "[]",
      THEN conjunct2, THEN conjunct1, rule_format, OF neq]
  from hk
  have 2: "run ?E ?g ''held_karp'' (PyInt 1) False True [] =
     ([Enter_run (PyInt 1), Print ''Using dummy tour''],
      Some (ValueError ''invalid algo: held_karp''))"
    by simp
  from 1 2 show ?thesis by (rule conjI)
qed

lemma shuffle_loop_mset: "i < length x \<Longrightarrow> mset (shuffle_loop rnd i x) = mset x"
proof (induction i arbitrary: x)
  case 0
  then show ?case by simp
next
  case (Suc i)
  let ?j = "rnd (Suc i) mod (Suc i + 1)"
  have "?j < Suc i + 1" by (rule mod_less_divisor) simp
  with Suc.prems have j: "?j < length x" by linarith
  have "mset (x[Suc i := x ! ?j, ?j := x ! Suc i]) = mset x"
    using Suc.prems j by (simp add: mset_swap)
  moreover have "i < length (x[Suc i := x ! ?j, ?j := x ! Suc i])" using Suc.prems by simp
  ultimately show ?case using Suc.IH by (simp add: Let_def)
qed

lemma shuffle_mset: "mset (shuffle rnd x) = mset x"
proof (cases x)
  case Nil
  then show ?thesis by (simp add: shuffle_def)
next
  case (Cons a as)
  then show ?thesis by (simp add: shuffle_def shuffle_loop_mset)
qed

section \<open>The random tour\<close>

text \<open>
  C10. For every graph and every outcome of the random generator, the tour of
  \<open>random_tour\<close> is a permutation of the nodes of the graph (every node as often as
  \<open>list(g)\<close> yields it, so exactly once when the nodes are distinct), and the cost is the
  cost of that shuffled tour as a closed tour: the sum of the weights from each node to the
  next, the last node leading back to the first.
\<close>

theorem random_tour_permutation:
  "mset (tour (random_tour rnd g)) = mset (nodes g) \<and>
   (distinct (nodes g) \<longrightarrow>
      distinct (tour (random_tour rnd g)) \<and> set (tour (random_tour rnd g)) = set (nodes g)) \<and>
   cost (random_tour rnd g) = PyFloat (tour_cost (tour (random_tour rnd g)) g) \<and>
   tour_cost (tour (random_tour rnd g)) g =
     (\<Sum>i\<leftarrow>[0..<length (nodes g)].
        weight g (tour (random_tour rnd g) ! i)
          (tour (random_tour rnd g) ! ((i + 1) mod length (nodes g))))"
proof -
  have t: "tour (random_tour rnd g) = shuffle rnd (nodes g)"
    by (simp add: random_tour_def Let_def)
  have m: "mset (tour (random_tour rnd g)) = mset (nodes g)"
    by (simp only: t shuffle_mset)
  have len: "length (tour (random_tour rnd g)) = length (nodes g)"
    using m by (rule mset_eq_length)
  have d: "distinct (nodes g) \<longrightarrow>
      distinct (tour (random_tour rnd g)) \<and> set (tour (random_tour rnd g)) = set (nodes g)"
    using m by (metis mset_eq_setD mset_eq_imp_distinct_iff)
  have c: "cost (random_tour rnd g) = PyFloat (tour_cost (tour (random_tour rnd g)) g)"
    by (simp add: random_tour_def Let_def)
  have s: "tour_cost (tour (random_tour rnd g)) g =
     (\<Sum>i\<leftarrow>[0..<length (nodes g)].
        weight g (tour (random_tour rnd g) ! i)
          (tour (random_tour rnd g) ! ((i + 1) mod length (nodes g))))"
    by (simp add: tour_cost_def len)
  from m d c s show ?thesis by (intro conjI)
qed

theorem random_tour_permutation_witness:
  "distinct (nodes (matrix_graph [[0, 1, 2], [2, 0, 3], [4, 4, 0]])) \<and>
   tour (random_tour (\<lambda>i. 0) (matrix_graph [[0, 1, 2], [2, 0, 3], [4, 4, 0]])) = [1, 2, 0] \<and>
   set (tour (random_tour (\<lambda>i. 0) (matrix_graph [[0, 1, 2], [2, 0, 3], [4, 4, 0]]))) =
     set (nodes (matrix_graph [[0, 1, 2], [2, 0, 3], [4, 4, 0]])) \<and>
   cost (random_tour (\<lambda>i. 0) (matrix_graph [[0, 1, 2], [2, 0, 3], [4, 4, 0]])) = PyFloat 8"
proof -
  let ?g = "matrix_graph [[0, 1, 2], [2, 0, 3], [4, 4, 0]]"
  let ?t = "tour (random_tour (\<lambda>i. 0) ?g)"
  note inst = random_tour_permutation [of "\<lambda>i. 0" ?g]
  have d: "distinct (nodes ?g)" by code_simp
  have t: "?t = [1, 2, 0]" by code_simp
  from inst [THEN conjunct2, THEN conjunct1, rule_format, OF d]
  have s: "set ?t = set (nodes ?g)" by (rule conjunct2)
  have v: "tour_cost ?t ?g = 8" by code_simp
  from inst [THEN conjunct2, THEN conjunct2, THEN conjunct1]
  have c: "cost (random_tour (\<lambda>i. 0) ?g) = PyFloat 8" by (simp only: v)
  from d t s c show ?thesis by (intro conjI)
qed

section \<open>The dummy oracle\<close>

text \<open>
  C7. The dummy oracle returns, for every graph, cost 0 and the tour \<open>list(graph)\<close>: the
  nodes of the graph, each exactly once when the nodes are distinct. When \<open>compute_tour\<close> is
  false, \<open>run\<close> hands this oracle to the extender it selects, and \<open>multibeta\<close> takes the
  reference line from it and runs its loop with \<open>compute_tour\<close> false, so that every call of
  \<open>run\<close> in the loop uses it too.
\<close>

theorem dummy_oracle_when_skipped:
  fixes ext :: "('m, 'vc, 'x) externals"
  shows
  "(dummy_oracle sg :: 'x + oracle_result) = Inr \<lparr>cost = PyInt 0, tour = nodes sg\<rparr> \<and>
   (\<forall>r. (dummy_oracle sg :: 'x + oracle_result) = Inr r \<longrightarrow>
      cost r = PyInt 0 \<and> mset (tour r) = mset (nodes sg) \<and>
      (distinct (nodes sg) \<longrightarrow> distinct (tour r) \<and> set (tour r) = set (nodes sg))) \<and>
   run ext g ''treedoubling'' beta False output_tour w =
     (case g_treedoubling ext g dummy_oracle beta of
        Inl e \<Rightarrow>
          (w @ [Enter_run beta, Print ''Using dummy tour'', Print ''About to run treedoubling''],
           Some (Foreign e))
      | Inr solution \<Rightarrow>
          (w @ [Enter_run beta, Print ''Using dummy tour'', Print ''About to run treedoubling'',
                Print (format_output ext solution (length (nodes g)) beta False output_tour)],
           None)) \<and>
   run ext g ''christofides'' beta False output_tour w =
     (case g_christofides ext g dummy_oracle (vertex_cover ext) beta of
        Inl e \<Rightarrow>
          (w @ [Enter_run beta, Print ''Using dummy tour'', Print ''About to run christofides''],
           Some (Foreign e))
      | Inr solution \<Rightarrow>
          (w @ [Enter_run beta, Print ''Using dummy tour'', Print ''About to run christofides'',
                Print (format_output ext solution (length (nodes g)) beta False output_tour)],
           None)) \<and>
   multibeta ext matrix algo False output_tour w =
     multibeta_loop ext (to_graph ext matrix) algo False output_tour
       (sorted_reverse (asymmetry_factors ext matrix)) 1
       (w @ [Print ''Using dummy tour'',
             Print (''About to print '' @ [CHR 0x22] @ ''format_output'' @ [CHR 0x22] @ '' line?''),
             Print (format_output ext
                      \<lparr>cost = PyInt 0, tour = nodes (to_graph ext matrix),
                       kernel_size = length (nodes (to_graph ext matrix))\<rparr>
                      (length (nodes (to_graph ext matrix))) (PyInt 0) False output_tour)])"
proof (intro conjI allI impI)
  show "(dummy_oracle sg :: 'x + oracle_result) = Inr \<lparr>cost = PyInt 0, tour = nodes sg\<rparr>"
    by (simp add: dummy_oracle_def)
next
  fix r
  assume r: "(dummy_oracle sg :: 'x + oracle_result) = Inr r"
  then have t: "tour r = nodes sg" and c: "cost r = PyInt 0"
    by (auto simp: dummy_oracle_def)
  from c show "cost r = PyInt 0" .
  from t show "mset (tour r) = mset (nodes sg)" by simp
  assume "distinct (nodes sg)"
  with t show "distinct (tour r)" "set (tour r) = set (nodes sg)" by simp_all
next
  show "run ext g ''treedoubling'' beta False output_tour w =
     (case g_treedoubling ext g dummy_oracle beta of
        Inl e \<Rightarrow>
          (w @ [Enter_run beta, Print ''Using dummy tour'', Print ''About to run treedoubling''],
           Some (Foreign e))
      | Inr solution \<Rightarrow>
          (w @ [Enter_run beta, Print ''Using dummy tour'', Print ''About to run treedoubling'',
                Print (format_output ext solution (length (nodes g)) beta False output_tour)],
           None))"
    by (simp add: run_def Let_def split: sum.splits)
  show "run ext g ''christofides'' beta False output_tour w =
     (case g_christofides ext g dummy_oracle (vertex_cover ext) beta of
        Inl e \<Rightarrow>
          (w @ [Enter_run beta, Print ''Using dummy tour'', Print ''About to run christofides''],
           Some (Foreign e))
      | Inr solution \<Rightarrow>
          (w @ [Enter_run beta, Print ''Using dummy tour'', Print ''About to run christofides'',
                Print (format_output ext solution (length (nodes g)) beta False output_tour)],
           None))"
    by (simp add: run_def Let_def split: sum.splits)
  have "(if False then concorde_asym ext else dummy_oracle) (to_graph ext matrix) =
      Inr \<lparr>cost = PyInt 0, tour = nodes (to_graph ext matrix)\<rparr>"
    by (simp add: dummy_oracle_def)
  from multibeta_returns [OF this, of algo output_tour w]
  show "multibeta ext matrix algo False output_tour w =
     multibeta_loop ext (to_graph ext matrix) algo False output_tour
       (sorted_reverse (asymmetry_factors ext matrix)) 1
       (w @ [Print ''Using dummy tour'',
             Print (''About to print '' @ [CHR 0x22] @ ''format_output'' @ [CHR 0x22] @ '' line?''),
             Print (format_output ext
                      \<lparr>cost = PyInt 0, tour = nodes (to_graph ext matrix),
                       kernel_size = length (nodes (to_graph ext matrix))\<rparr>
                      (length (nodes (to_graph ext matrix))) (PyInt 0) False output_tour)])"
    by simp
qed

theorem dummy_oracle_when_skipped_witness:
  "distinct (nodes (matrix_graph [[0, 1], [2, 0]])) \<and>
   (dummy_oracle (matrix_graph [[0, 1], [2, 0]]) :: unit + oracle_result) =
     Inr \<lparr>cost = PyInt 0, tour = [0, 1]\<rparr> \<and>
   set (tour \<lparr>cost = PyInt 0, tour = [0, 1]\<rparr>) = set (nodes (matrix_graph [[0, 1], [2, 0]]))"
proof -
  let ?g = "matrix_graph [[0, 1], [2, 0]]"
  let ?r = "\<lparr>cost = PyInt 0, tour = [0, 1]\<rparr>"
  note inst = dummy_oracle_when_skipped [where ext = "example_externals ratio_factors" and sg = ?g]
  have d: "distinct (nodes ?g)" by code_simp
  have n: "nodes ?g = [0, 1]" by code_simp
  from inst [THEN conjunct1]
  have o: "(dummy_oracle ?g :: unit + oracle_result) = Inr ?r" by (simp only: n)
  note inst [THEN conjunct2, THEN conjunct1, rule_format, OF o]
  then have "distinct (nodes ?g) \<longrightarrow> distinct (tour ?r) \<and> set (tour ?r) = set (nodes ?g)"
    by (elim conjE)
  from this [rule_format, OF d] have s: "set (tour ?r) = set (nodes ?g)" by (rule conjunct2)
  from d o s show ?thesis by (intro conjI)
qed

section \<open>The reference line of the sweep\<close>

text \<open>
  C2. When the exact oracle (the dummy oracle when \<open>compute_tour\<close> is false) returns on the
  whole graph, \<open>multibeta\<close> prints the line that names the oracle, a progress line, and then
  its first result line, before the first call of \<open>run\<close>: the line reports beta as \<open>0\<close>,
  the node count of the graph as graph size and again as kernel size, and the cost (when
  \<open>compute_tour\<close> is set) and the tour (when \<open>output_tour\<close> is set) that the oracle returned
  for the whole graph. The first call of \<open>run\<close> follows at once, with beta 1.
\<close>

theorem multibeta_reference_line:
  assumes "(if compute_tour then concorde_asym ext else dummy_oracle) (to_graph ext matrix) = Inr r"
  shows "\<exists>rest. fst (multibeta ext matrix algo compute_tour output_tour w) =
     w @ [Print (if compute_tour then ''Using exact computation'' else ''Using dummy tour''),
          Print (''About to print '' @ [CHR 0x22] @ ''format_output'' @ [CHR 0x22] @ '' line?''),
          Print (join '', ''
                   ([''0'', str_nat (length (nodes (to_graph ext matrix))),
                     str_nat (length (nodes (to_graph ext matrix)))]
                    @ (if compute_tour then [str_num ext (cost r)] else [])
                    @ (if output_tour then [join '' '' (map str_nat (tour r))] else []))),
          Enter_run (PyInt 1)] @ rest"
proof -
  let ?g = "to_graph ext matrix"
  let ?line = "format_output ext \<lparr>cost = cost r, tour = tour r, kernel_size = length (nodes ?g)\<rparr>
      (length (nodes ?g)) (PyInt 0) compute_tour output_tour"
  let ?w = "w @ [Print (if compute_tour then ''Using exact computation'' else ''Using dummy tour''),
          Print (''About to print '' @ [CHR 0x22] @ ''format_output'' @ [CHR 0x22] @ '' line?''),
          Print ?line]"
  have zero: "str_int 0 = ''0''" by (simp add: str_int_def str_nat.simps)
  have line: "?line = join '', ''
                   ([''0'', str_nat (length (nodes ?g)), str_nat (length (nodes ?g))]
                    @ (if compute_tour then [str_num ext (cost r)] else [])
                    @ (if output_tour then [join '' '' (map str_nat (tour r))] else []))"
    by (simp add: format_output_def zero)
  from loop_first_iteration [of ext ?g algo compute_tour output_tour
      "sorted_reverse (asymmetry_factors ext matrix)" ?w]
  obtain ev where "fst (multibeta_loop ext ?g algo compute_tour output_tour
      (sorted_reverse (asymmetry_factors ext matrix)) 1 ?w) = ?w @ Enter_run (PyInt 1) # ev" ..
  then have "fst (multibeta ext matrix algo compute_tour output_tour w) =
      ?w @ Enter_run (PyInt 1) # ev"
    by (simp only: multibeta_returns [OF assms])
  then have "fst (multibeta ext matrix algo compute_tour output_tour w) =
     w @ [Print (if compute_tour then ''Using exact computation'' else ''Using dummy tour''),
          Print (''About to print '' @ [CHR 0x22] @ ''format_output'' @ [CHR 0x22] @ '' line?''),
          Print ?line, Enter_run (PyInt 1)] @ ev"
    by simp
  then show ?thesis unfolding line by (rule exI)
qed

theorem multibeta_reference_line_witness:
  "(if False then concorde_asym (example_externals ratio_factors) else dummy_oracle)
     (to_graph (example_externals ratio_factors) [[0, 1], [2, 0]]) =
     Inr \<lparr>cost = PyInt 0, tour = [0, 1]\<rparr> \<and>
   (\<exists>rest. fst (multibeta (example_externals ratio_factors) [[0, 1], [2, 0]] ''treedoubling''
                  False True []) =
      [Print ''Using dummy tour'',
       Print (''About to print '' @ [CHR 0x22] @ ''format_output'' @ [CHR 0x22] @ '' line?''),
       Print ''0, 2, 2, 0 1'', Enter_run (PyInt 1)] @ rest)"
proof -
  let ?E = "example_externals ratio_factors"
  let ?m = "[[0, 1], [2, 0]] :: rat list list"
  let ?r = "\<lparr>cost = PyInt 0, tour = [0, 1]\<rparr>"
  have o: "(if False then concorde_asym ?E else dummy_oracle) (to_graph ?E ?m) = Inr ?r"
    by code_simp
  have l: "join '', ''
                   ([''0'', str_nat (length (nodes (to_graph ?E ?m))),
                     str_nat (length (nodes (to_graph ?E ?m)))]
                    @ (if False then [str_num ?E (cost ?r)] else [])
                    @ (if True then [join '' '' (map str_nat (tour ?r))] else [])) =
           ''0, 2, 2, 0 1''"
    by code_simp
  from multibeta_reference_line [OF o, of "''treedoubling''" True "[]"]
  have "\<exists>rest. fst (multibeta ?E ?m ''treedoubling'' False True []) =
      [Print ''Using dummy tour'',
       Print (''About to print '' @ [CHR 0x22] @ ''format_output'' @ [CHR 0x22] @ '' line?''),
       Print ''0, 2, 2, 0 1'', Enter_run (PyInt 1)] @ rest"
    unfolding l by simp
  with o show ?thesis by (rule conjI)
qed

lemma ratio_index_positive_length:
  assumes "0 < py_round (1 / 2 ^ k * of_nat n)"
  shows "0 < n"
proof (rule ccontr)
  assume "\<not> 0 < n"
  then have "n = 0" by simp
  with assms show False by (simp add: py_round_def)
qed

text \<open>The betas of the sweep by position: the first is the constant 1, every later one
  is the factor at the rounded index, which lies inside the list.\<close>

lemma multibeta_betas_indexed:
  "\<exists>bs. run_betas (fst (multibeta ext matrix algo ct ot w)) = run_betas w @ bs \<and>
     (\<forall>k<length bs.
        (k = 0 \<longrightarrow> bs ! k = PyInt 1) \<and>
        (0 < k \<longrightarrow>
           0 \<le> py_round (1 / 2 ^ k * of_nat (length (asymmetry_factors ext matrix))) \<and>
           py_round (1 / 2 ^ k * of_nat (length (asymmetry_factors ext matrix)))
             < int (length (asymmetry_factors ext matrix)) \<and>
           bs ! k = PyFloat (sorted_reverse (asymmetry_factors ext matrix) !
                      nat (py_round (1 / 2 ^ k * of_nat (length (asymmetry_factors ext matrix)))))))"
proof -
  let ?n = "length (asymmetry_factors ext matrix)"
  let ?facs = "sorted_reverse (asymmetry_factors ext matrix)"
  from multibeta_betas [of ext matrix algo ct ot w]
  obtain bs where bs: "run_betas (fst (multibeta ext matrix algo ct ot w)) = run_betas w @ bs"
    and sel: "\<And>k. k < length bs \<Longrightarrow> bs ! k = select_beta ?facs (1 / 2 ^ k)"
    and cont: "\<And>k. Suc k < length bs \<Longrightarrow> 0 < py_round (1 / 2 ^ k * of_nat ?n)"
    by blast
  have "\<forall>k<length bs.
        (k = 0 \<longrightarrow> bs ! k = PyInt 1) \<and>
        (0 < k \<longrightarrow> 0 \<le> py_round (1 / 2 ^ k * of_nat ?n) \<and>
           py_round (1 / 2 ^ k * of_nat ?n) < int ?n \<and>
           bs ! k = PyFloat (?facs ! nat (py_round (1 / 2 ^ k * of_nat ?n))))"
  proof (intro allI impI conjI)
    fix k
    assume k: "k < length bs" and "k = 0"
    with sel [of k] show "bs ! k = PyInt 1" by simp
  next
    fix k
    assume k: "k < length bs" and pos: "0 < k"
    then obtain j where j: "k = Suc j" by (cases k) auto
    with k cont [of j] have "0 < py_round (1 / 2 ^ j * of_nat ?n)" by simp
    then have n: "0 < ?n" by (rule ratio_index_positive_length)
    from ratio_index_bounds [OF n pos]
    show b1: "0 \<le> py_round (1 / 2 ^ k * of_nat ?n)"
      and b2: "py_round (1 / 2 ^ k * of_nat ?n) < int ?n" by simp_all
    from sel [OF k] b2
    show "bs ! k = PyFloat (?facs ! nat (py_round (1 / 2 ^ k * of_nat ?n)))"
      by (simp add: select_beta_def)
  qed
  with bs show ?thesis by blast
qed

section \<open>The betas of the sweep\<close>

text \<open>
  C1 (amended). The ratio starts at 1 and is halved after each iteration, so iteration
  \<open>k\<close> (counted from 0) selects the index \<open>round(len(facs) / 2 ^ k)\<close>, where \<open>round\<close> is
  Python's (a tie goes to the even integer) and \<open>len(facs)\<close> counts every factor, repeated
  values included. At the first iteration that index is \<open>len(facs)\<close>, one past the end of
  the list, and the beta passed to \<open>run\<close> is the constant 1. At every later iteration the
  index lies inside the list and the beta passed to \<open>run\<close> is the factor at that index of the
  factors sorted in descending order.
\<close>

theorem multibeta_beta_selection:
  "\<exists>bs. run_betas (fst (multibeta ext matrix algo compute_tour output_tour w)) = run_betas w @ bs \<and>
     (\<forall>k<length bs.
        (k = 0 \<longrightarrow>
           py_round (1 / 2 ^ k * of_nat (length (asymmetry_factors ext matrix))) =
             int (length (sorted_reverse (asymmetry_factors ext matrix))) \<and>
           bs ! k = PyInt 1) \<and>
        (0 < k \<longrightarrow>
           0 \<le> py_round (1 / 2 ^ k * of_nat (length (asymmetry_factors ext matrix))) \<and>
           py_round (1 / 2 ^ k * of_nat (length (asymmetry_factors ext matrix)))
             < int (length (sorted_reverse (asymmetry_factors ext matrix))) \<and>
           bs ! k = PyFloat (sorted_reverse (asymmetry_factors ext matrix) !
                      nat (py_round (1 / 2 ^ k * of_nat (length (asymmetry_factors ext matrix)))))))"
proof -
  from multibeta_betas_indexed [of ext matrix algo compute_tour output_tour w]
  obtain bs where bs:
    "run_betas (fst (multibeta ext matrix algo compute_tour output_tour w)) = run_betas w @ bs"
    and ix: "\<forall>k<length bs.
        (k = 0 \<longrightarrow> bs ! k = PyInt 1) \<and>
        (0 < k \<longrightarrow>
           0 \<le> py_round (1 / 2 ^ k * of_nat (length (asymmetry_factors ext matrix))) \<and>
           py_round (1 / 2 ^ k * of_nat (length (asymmetry_factors ext matrix)))
             < int (length (asymmetry_factors ext matrix)) \<and>
           bs ! k = PyFloat (sorted_reverse (asymmetry_factors ext matrix) !
                      nat (py_round (1 / 2 ^ k * of_nat (length (asymmetry_factors ext matrix))))))"
    by blast
  from ix have "\<forall>k<length bs.
        (k = 0 \<longrightarrow>
           py_round (1 / 2 ^ k * of_nat (length (asymmetry_factors ext matrix))) =
             int (length (sorted_reverse (asymmetry_factors ext matrix))) \<and>
           bs ! k = PyInt 1) \<and>
        (0 < k \<longrightarrow>
           0 \<le> py_round (1 / 2 ^ k * of_nat (length (asymmetry_factors ext matrix))) \<and>
           py_round (1 / 2 ^ k * of_nat (length (asymmetry_factors ext matrix)))
             < int (length (sorted_reverse (asymmetry_factors ext matrix))) \<and>
           bs ! k = PyFloat (sorted_reverse (asymmetry_factors ext matrix) !
                      nat (py_round (1 / 2 ^ k * of_nat (length (asymmetry_factors ext matrix))))))"
    by simp
  with bs show ?thesis by blast
qed

theorem multibeta_beta_selection_witness:
  "\<exists>bs. run_betas (fst (multibeta (example_externals ratio_factors)
              [[0, 1, 2], [2, 0, 3], [4, 4, 0]] ''treedoubling'' False False [])) = bs \<and>
     1 < length bs \<and>
     py_round (1 / 2 ^ 1 * of_nat (length (asymmetry_factors (example_externals ratio_factors)
        [[0, 1, 2], [2, 0, 3], [4, 4, 0]]))) = 2 \<and>
     sorted_reverse (asymmetry_factors (example_externals ratio_factors)
        [[0, 1, 2], [2, 0, 3], [4, 4, 0]]) = [2, 2, 4 / 3] \<and>
     bs ! 1 = PyFloat (sorted_reverse (asymmetry_factors (example_externals ratio_factors)
        [[0, 1, 2], [2, 0, 3], [4, 4, 0]]) ! nat (py_round (1 / 2 ^ 1 *
          of_nat (length (asymmetry_factors (example_externals ratio_factors)
            [[0, 1, 2], [2, 0, 3], [4, 4, 0]])))))"
proof -
  let ?E = "example_externals ratio_factors"
  let ?m = "[[0, 1, 2], [2, 0, 3], [4, 4, 0]] :: rat list list"
  let ?i = "py_round (1 / 2 ^ 1 * of_nat (length (asymmetry_factors ?E ?m)))"
  from multibeta_beta_selection [of ?E ?m "''treedoubling''" False False "[]"]
  obtain bs where ab: "run_betas (fst (multibeta ?E ?m ''treedoubling'' False False [])) =
      run_betas [] @ bs \<and>
     (\<forall>k<length bs.
        (k = 0 \<longrightarrow>
           py_round (1 / 2 ^ k * of_nat (length (asymmetry_factors ?E ?m))) =
             int (length (sorted_reverse (asymmetry_factors ?E ?m))) \<and>
           bs ! k = PyInt 1) \<and>
        (0 < k \<longrightarrow>
           0 \<le> py_round (1 / 2 ^ k * of_nat (length (asymmetry_factors ?E ?m))) \<and>
           py_round (1 / 2 ^ k * of_nat (length (asymmetry_factors ?E ?m)))
             < int (length (sorted_reverse (asymmetry_factors ?E ?m))) \<and>
           bs ! k = PyFloat (sorted_reverse (asymmetry_factors ?E ?m) !
                      nat (py_round (1 / 2 ^ k * of_nat (length (asymmetry_factors ?E ?m)))))))" ..
  have ev: "length (run_betas (fst (multibeta ?E ?m ''treedoubling'' False False []))) = 4"
    by code_simp
  from ab have a: "run_betas (fst (multibeta ?E ?m ''treedoubling'' False False [])) = bs"
    by simp
  with ev have len: "1 < length bs" by simp
  from ab [THEN conjunct2, rule_format, OF len, THEN conjunct2, rule_format]
  have sel: "bs ! 1 = PyFloat (sorted_reverse (asymmetry_factors ?E ?m) ! nat ?i)"
    by simp
  have i: "?i = 2" by code_simp
  have f: "sorted_reverse (asymmetry_factors ?E ?m) = [2, 2, 4 / 3]" by code_simp
  from a len i f sel show ?thesis by (intro exI [of _ bs] conjI)
qed

theorem multibeta_beta_selection_counterexample:
  "sorted_reverse (asymmetry_factors (example_externals ratio_factors)
      [[0, 1, 2], [2, 0, 3], [4, 4, 0]]) = [2, 2, 4 / 3] \<and>
   run_betas (fst (multibeta (example_externals ratio_factors)
      [[0, 1, 2], [2, 0, 3], [4, 4, 0]] ''treedoubling'' False False [])) =
     [PyInt 1, PyFloat (4 / 3), PyFloat 2, PyFloat 2] \<and>
   PyInt 1 \<notin> set (map PyFloat [2, 2, 4 / 3]) \<and>
   (py_getitem [2, 2, 4 / 3 :: rat] (py_round (1 * of_nat (length [2, 2, 4 / 3 :: rat])))
      :: unit exn + rat) = Inl IndexError \<and>
   PyFloat (4 / 3) \<noteq>
     PyFloat ([2, 2, 4 / 3] ! nat (py_round (1 / 2 * of_nat (length (remdups [2, 2, 4 / 3 :: rat])))))"
proof (intro conjI)
  show "sorted_reverse (asymmetry_factors (example_externals ratio_factors)
      [[0, 1, 2], [2, 0, 3], [4, 4, 0]]) = [2, 2, 4 / 3]"
    by code_simp
  show "run_betas (fst (multibeta (example_externals ratio_factors)
      [[0, 1, 2], [2, 0, 3], [4, 4, 0]] ''treedoubling'' False False [])) =
     [PyInt 1, PyFloat (4 / 3), PyFloat 2, PyFloat 2]"
    by code_simp
  show "PyInt 1 \<notin> set (map PyFloat [2, 2, 4 / 3])" by simp
  show "(py_getitem [2, 2, 4 / 3 :: rat] (py_round (1 * of_nat (length [2, 2, 4 / 3 :: rat])))
      :: unit exn + rat) = Inl IndexError"
    by code_simp
  have "py_round (1 / 2 * of_nat (length (remdups [2, 2, 4 / 3 :: rat]))) = 1" by code_simp
  then show "PyFloat (4 / 3) \<noteq>
     PyFloat ([2, 2, 4 / 3] ! nat (py_round (1 / 2 * of_nat (length (remdups [2, 2, 4 / 3 :: rat])))))"
    by simp
qed

lemma multibeta_betas_sorted_tail:
  assumes ix: "\<forall>k<length bs.
        (k = 0 \<longrightarrow> bs ! k = PyInt 1) \<and>
        (0 < k \<longrightarrow>
           0 \<le> py_round (1 / 2 ^ k * of_nat (length fs)) \<and>
           py_round (1 / 2 ^ k * of_nat (length fs)) < int (length fs) \<and>
           bs ! k = PyFloat (sorted_reverse fs ! nat (py_round (1 / 2 ^ k * of_nat (length fs)))))"
  shows "sorted (map num_val (tl bs))"
    and "(\<forall>f\<in>set fs. 1 \<le> f) \<Longrightarrow> sorted (map num_val bs)"
proof -
  let ?i = "\<lambda>k. py_round (1 / 2 ^ k * of_nat (length fs))"
  have val: "num_val (bs ! k) = sorted_reverse fs ! nat (?i k)"
    and rng: "nat (?i k) < length fs" if "0 < k" "k < length bs" for k
    using ix that by auto
  have step: "num_val (bs ! j) \<le> num_val (bs ! k)" if "0 < j" "j \<le> k" "k < length bs" for j k
  proof -
    from that have "?i k \<le> ?i j" by (intro ratio_index_antimono)
    then have "nat (?i k) \<le> nat (?i j)" by simp
    moreover from that have "nat (?i j) < length fs" by (intro rng) simp_all
    ultimately have "sorted_reverse fs ! nat (?i j) \<le> sorted_reverse fs ! nat (?i k)"
      by (rule sorted_reverse_nth_mono)
    with that show ?thesis by (simp add: val)
  qed
  show tail: "sorted (map num_val (tl bs))"
  proof (subst sorted_iff_nth_mono, intro allI impI)
    fix i j
    assume "i \<le> j" "j < length (map num_val (tl bs))"
    then have "0 < Suc i" "Suc i \<le> Suc j" "Suc j < length bs" by simp_all
    from step [OF this] \<open>i \<le> j\<close> \<open>j < length (map num_val (tl bs))\<close>
    show "map num_val (tl bs) ! i \<le> map num_val (tl bs) ! j"
      by (simp add: nth_tl)
  qed
  assume ge: "\<forall>f\<in>set fs. 1 \<le> f"
  show "sorted (map num_val bs)"
  proof (cases bs)
    case Nil
    then show ?thesis by simp
  next
    case (Cons b rest)
    with ix have b: "b = PyInt 1" by auto
    have "1 \<le> num_val y" if "y \<in> set rest" for y
    proof -
      from that obtain j where j: "j < length rest" "y = rest ! j" by (auto simp: in_set_conv_nth)
      with Cons have k: "0 < Suc j" "Suc j < length bs" "y = bs ! Suc j" by simp_all
      from rng [OF k(1,2)] have "sorted_reverse fs ! nat (?i (Suc j)) \<in> set (sorted_reverse fs)"
        by (intro nth_mem) simp
      with ge have "1 \<le> sorted_reverse fs ! nat (?i (Suc j))" by simp
      with val [OF k(1,2)] k(3) show ?thesis by simp
    qed
    with tail Cons b show ?thesis by simp
  qed
qed

lemma length_filter_mono:
  assumes "\<And>x. x \<in> set xs \<Longrightarrow> P x \<Longrightarrow> Q x"
  shows "length (filter P xs) \<le> length (filter Q xs)"
  using assms by (induction xs) auto

lemma kernel_nodes_narrow:
  assumes "beta \<le> beta'"
  shows "set (kernel_nodes c g beta') \<subseteq> set (kernel_nodes c g beta)"
    and "length (kernel_nodes c g beta') \<le> length (kernel_nodes c g beta)"
proof -
  have imp: "list_ex (\<lambda>v. v \<noteq> u \<and> beta < pair_factor c g u v) (nodes g)"
    if "list_ex (\<lambda>v. v \<noteq> u \<and> beta' < pair_factor c g u v) (nodes g)" for u
    using that assms by (auto simp: list_ex_iff)
  then show "set (kernel_nodes c g beta') \<subseteq> set (kernel_nodes c g beta)"
    by (auto simp: kernel_nodes_def)
  from imp show "length (kernel_nodes c g beta') \<le> length (kernel_nodes c g beta)"
    unfolding kernel_nodes_def by (intro length_filter_mono)
qed

section \<open>Monotonicity of the sweep\<close>



section \<open>Termination of the sweep\<close>

text \<open>
  C3. For every list of factors, the empty one included, the loop of \<open>multibeta\<close>
  terminates: it is a total function, and it calls \<open>run\<close> at least once and at most
  \<open>len(facs) + 2\<close> times. Every iteration but the last has a selected index
  \<open>round(len(facs) / 2 ^ k)\<close> above zero, and when the loop ends without an exception the
  last iteration is one whose selected index is zero, hence the first such. It ends
  without an exception when no call of \<open>run\<close> raises one.
\<close>

theorem multibeta_loop_terminates:
  "\<exists>bs. run_betas (fst (multibeta_loop ext g algo compute_tour output_tour facs 1 w)) =
          run_betas w @ bs \<and>
     0 < length bs \<and> length bs \<le> length facs + 2 \<and>
     (\<forall>k. Suc k < length bs \<longrightarrow> 0 < py_round (1 / 2 ^ k * of_nat (length facs))) \<and>
     (snd (multibeta_loop ext g algo compute_tour output_tour facs 1 w) = None \<longrightarrow>
        py_round (1 / 2 ^ (length bs - 1) * of_nat (length facs)) = 0) \<and>
     ((\<forall>beta w'. snd (run ext g algo beta compute_tour output_tour w') = None) \<longrightarrow>
        snd (multibeta_loop ext g algo compute_tour output_tour facs 1 w) = None)"
proof -
  let ?loop = "multibeta_loop ext g algo compute_tour output_tour facs 1 w"
  let ?i = "\<lambda>k. py_round (1 / 2 ^ k * of_nat (length facs))"
  have one: "(0::rat) \<le> 1" by simp
  from loop_betas [OF one, of ext g algo compute_tour output_tour facs w]
  obtain bs where ab: "run_betas (fst ?loop) = run_betas w @ bs \<and> bs \<noteq> [] \<and>
        (\<forall>k<length bs. bs ! k = select_beta facs (1 / 2 ^ k)) \<and>
        (\<forall>k. Suc k < length bs \<longrightarrow> 0 < py_round (1 / 2 ^ k * of_nat (length facs))) \<and>
        (snd ?loop = None \<longrightarrow>
           \<not> 0 < py_round (1 / 2 ^ (length bs - 1) * of_nat (length facs)))" ..
  from ab have bs: "run_betas (fst ?loop) = run_betas w @ bs" by (rule conjunct1)
  from ab have ne: "bs \<noteq> []" by (elim conjE)
  from ab have cont': "\<forall>k. Suc k < length bs \<longrightarrow> 0 < ?i k" by (elim conjE)
  then have cont: "\<And>k. Suc k < length bs \<Longrightarrow> 0 < ?i k" by (rule allE) (erule mp)
  from ab have stop: "snd ?loop = None \<Longrightarrow> \<not> 0 < ?i (length bs - 1)" by (elim conjE impE)
  have bound: "length bs \<le> length facs + 2"
  proof (rule ccontr)
    assume "\<not> length bs \<le> length facs + 2"
    then have "Suc (Suc (length facs)) < length bs" by simp
    from cont [OF this] show False by (simp only: ratio_index_zero less_irrefl)
  qed
  have last: "snd ?loop = None \<longrightarrow> ?i (length bs - 1) = 0"
  proof
    assume "snd ?loop = None"
    from stop [OF this] have "?i (length bs - 1) \<le> 0" by simp
    moreover have "0 \<le> ?i (length bs - 1)" by (rule py_round_nonneg) simp
    ultimately show "?i (length bs - 1) = 0" by simp
  qed
  have ok: "(\<forall>beta w'. snd (run ext g algo beta compute_tour output_tour w') = None) \<longrightarrow>
        snd ?loop = None"
  proof
    assume "\<forall>beta w'. snd (run ext g algo beta compute_tour output_tour w') = None"
    then show "snd ?loop = None" by (intro loop_no_raise [OF one]) simp
  qed
  from ne have pos: "0 < length bs" by simp
  from bs pos bound cont' last ok show ?thesis
    by (intro exI [of _ bs] conjI)
qed

theorem multibeta_loop_terminates_witness:
  "snd (multibeta_loop (example_externals ratio_factors) (matrix_graph [[0, 1], [2, 0]])
          ''treedoubling'' False False [2, 2, 4 / 3] 1 []) = None \<and>
   length (run_betas (fst (multibeta_loop (example_externals ratio_factors)
          (matrix_graph [[0, 1], [2, 0]]) ''treedoubling'' False False [2, 2, 4 / 3] 1 []))) = 4 \<and>
   0 < py_round (1 / 2 ^ 2 * of_nat (length [2, 2, 4 / 3 :: rat])) \<and>
   py_round (1 / 2 ^ (4 - 1) * of_nat (length [2, 2, 4 / 3 :: rat])) = 0"
proof -
  let ?E = "example_externals ratio_factors"
  let ?g = "matrix_graph [[0, 1], [2, 0]]"
  let ?fs = "[2, 2, 4 / 3] :: rat list"
  let ?loop = "multibeta_loop ?E ?g ''treedoubling'' False False ?fs 1 []"
  from multibeta_loop_terminates [of ?E ?g "''treedoubling''" False False ?fs "[]"]
  obtain bs where ab: "run_betas (fst ?loop) = run_betas [] @ bs \<and>
     0 < length bs \<and> length bs \<le> length ?fs + 2 \<and>
     (\<forall>k. Suc k < length bs \<longrightarrow> 0 < py_round (1 / 2 ^ k * of_nat (length ?fs))) \<and>
     (snd ?loop = None \<longrightarrow> py_round (1 / 2 ^ (length bs - 1) * of_nat (length ?fs)) = 0) \<and>
     ((\<forall>beta w'. snd (run ?E ?g ''treedoubling'' beta False False w') = None) \<longrightarrow>
        snd ?loop = None)" ..
  have none: "snd ?loop = None" by code_simp
  have len: "length (run_betas (fst ?loop)) = 4" by code_simp
  from ab have "run_betas (fst ?loop) = bs" by simp
  with len have l4: "length bs = 4" by simp
  then have "Suc 2 < length bs" by simp
  from ab [THEN conjunct2, THEN conjunct2, THEN conjunct2, THEN conjunct1, rule_format, OF this]
  have c: "0 < py_round (1 / 2 ^ 2 * of_nat (length ?fs))" .
  from ab [THEN conjunct2, THEN conjunct2, THEN conjunct2, THEN conjunct2, THEN conjunct1,
      THEN mp, OF none]
  have z: "py_round (1 / 2 ^ (4 - 1) * of_nat (length ?fs)) = 0" by (simp only: l4)
  from none len c z show ?thesis by (intro conjI)
qed

lemma shortcut_set: "set (shortcut visited walk) = set walk - set visited"
  by (induction visited walk rule: shortcut.induct) auto

lemma shortcut_distinct: "distinct (shortcut visited walk)"
  by (induction visited walk rule: shortcut.induct) (auto simp: shortcut_set)

lemma places_every_node_iff: "places_every_node g t \<longleftrightarrow> set t = set (nodes g)"
  by (auto simp: places_every_node_def list_all_iff)

lemma doubled_walk_set: "set (doubled_walk t) = set (rose_nodes t)"
proof (induction t)
  case (Rose v ts)
  then show ?case by (cases ts) auto
qed

lemma splice_set:
  assumes "set kernel_tour = set kern" "set walk \<inter> set kern \<noteq> {}"
  shows "set (splice kern kernel_tour walk) = set walk \<union> set kern"
  using assms(2)
proof (induction walk)
  case Nil
  then show ?case by simp
next
  case (Cons v walk)
  show ?case
  proof (cases "v \<in> set kern")
    case True
    with assms(1) show ?thesis by auto
  next
    case False
    with Cons.prems have "set walk \<inter> set kern \<noteq> {}" by auto
    with Cons.IH False show ?thesis by auto
  qed
qed

lemma splice_no_kernel:
  "set walk \<inter> set kern = {} \<Longrightarrow> splice kern kernel_tour walk = walk"
  by (induction walk) auto

lemma tree_doubling_succeeds:
  assumes "spanning_tree c g kern = Some t" "set (rose_nodes t) = set (nodes g)"
    "set kernel_tour = set kern" "set kern \<subseteq> set (nodes g)"
  shows "tree_doubling_extend c g kern kernel_tour =
     Inr (shortcut [] (splice kern kernel_tour (doubled_walk t)))"
proof -
  let ?walk = "doubled_walk t"
  have w: "set ?walk = set (nodes g)" using assms(2) by (simp add: doubled_walk_set)
  have "set (splice kern kernel_tour ?walk) = set (nodes g)"
  proof (cases "set ?walk \<inter> set kern = {}")
    case True
    then show ?thesis using w by (simp add: splice_no_kernel)
  next
    case False
    from splice_set [OF assms(3) False] w assms(4) show ?thesis by auto
  qed
  then have "places_every_node g (shortcut [] (splice kern kernel_tour ?walk))"
    by (simp add: places_every_node_iff shortcut_set)
  with assms(1) show ?thesis by (simp add: tree_doubling_extend_def Let_def)
qed

lemma complete_distinct_tour:
  assumes "distinct t" "set t = set (nodes g)"
  shows "distinct t \<and> set t = set (nodes g) \<and> (distinct (nodes g) \<longrightarrow> mset t = mset (nodes g))"
proof (intro conjI impI)
  show "distinct t" "set t = set (nodes g)" by fact+
  assume "distinct (nodes g)"
  from set_eq_iff_mset_eq_distinct [OF assms(1) this] assms(2)
  show "mset t = mset (nodes g)" by simp
qed

section \<open>The tours of the extenders\<close>

text \<open>
  C4. For every graph, every beta and every kernel tour handed to them, each of the two
  extenders either fails or returns a tour in which no node occurs twice and whose nodes
  are exactly the nodes of the graph, so a permutation of the node list; a tour that
  misses a node or holds a foreign one is never returned, the extender fails instead.
\<close>

theorem extenders_place_every_node:
  "(\<forall>t. tree_doubling_extend c g (kernel_nodes c g beta) kernel_tour = Inr t \<longrightarrow>
        distinct t \<and> set t = set (nodes g) \<and>
        (distinct (nodes g) \<longrightarrow> mset t = mset (nodes g))) \<and>
   (\<forall>t. christofides_extend c g (kernel_nodes c g beta) kernel_tour = Inr t \<longrightarrow>
        distinct t \<and> set t = set (nodes g) \<and>
        (distinct (nodes g) \<longrightarrow> mset t = mset (nodes g)))"
proof (rule conjI)
  show "\<forall>t. tree_doubling_extend c g (kernel_nodes c g beta) kernel_tour = Inr t \<longrightarrow>
        distinct t \<and> set t = set (nodes g) \<and>
        (distinct (nodes g) \<longrightarrow> mset t = mset (nodes g))"
  proof (rule allI, rule impI)
    fix t
    assume "tree_doubling_extend c g (kernel_nodes c g beta) kernel_tour = Inr t"
    then obtain walk where "t = shortcut [] walk" "places_every_node g t"
      by (auto simp: tree_doubling_extend_def Let_def split: option.splits if_splits)
    then have "distinct t" "set t = set (nodes g)"
      by (simp_all add: shortcut_distinct places_every_node_iff)
    then show "distinct t \<and> set t = set (nodes g) \<and>
        (distinct (nodes g) \<longrightarrow> mset t = mset (nodes g))"
      by (rule complete_distinct_tour)
  qed
  show "\<forall>t. christofides_extend c g (kernel_nodes c g beta) kernel_tour = Inr t \<longrightarrow>
        distinct t \<and> set t = set (nodes g) \<and>
        (distinct (nodes g) \<longrightarrow> mset t = mset (nodes g))"
  proof (rule allI, rule impI)
    fix t
    assume "christofides_extend c g (kernel_nodes c g beta) kernel_tour = Inr t"
    then obtain walk where "t = shortcut [] walk" "places_every_node g t"
      by (auto simp: christofides_extend_def Let_def split: option.splits if_splits)
    then have "distinct t" "set t = set (nodes g)"
      by (simp_all add: shortcut_distinct places_every_node_iff)
    then show "distinct t \<and> set t = set (nodes g) \<and>
        (distinct (nodes g) \<longrightarrow> mset t = mset (nodes g))"
      by (rule complete_distinct_tour)
  qed
qed

theorem extenders_place_every_node_witness:
  "kernel_nodes example_construction
      (matrix_graph [[0, 1, 2, 1], [2, 0, 3, 1], [4, 4, 0, 1], [1, 1, 1, 0]]) (3 / 2) = [0, 1, 2] \<and>
   tree_doubling_extend example_construction
      (matrix_graph [[0, 1, 2, 1], [2, 0, 3, 1], [4, 4, 0, 1], [1, 1, 1, 0]])
      (kernel_nodes example_construction
         (matrix_graph [[0, 1, 2, 1], [2, 0, 3, 1], [4, 4, 0, 1], [1, 1, 1, 0]]) (3 / 2))
      [2, 0, 1] = Inr [2, 0, 1, 3] \<and>
   christofides_extend example_construction
      (matrix_graph [[0, 1, 2, 1], [2, 0, 3, 1], [4, 4, 0, 1], [1, 1, 1, 0]])
      (kernel_nodes example_construction
         (matrix_graph [[0, 1, 2, 1], [2, 0, 3, 1], [4, 4, 0, 1], [1, 1, 1, 0]]) (3 / 2))
      [2, 0, 1] = Inr [0, 1, 2, 3] \<and>
   mset [2, 0, 1, 3] =
     mset (nodes (matrix_graph [[0, 1, 2, 1], [2, 0, 3, 1], [4, 4, 0, 1], [1, 1, 1, 0]])) \<and>
   mset [0, 1, 2, 3] =
     mset (nodes (matrix_graph [[0, 1, 2, 1], [2, 0, 3, 1], [4, 4, 0, 1], [1, 1, 1, 0]]))"
proof -
  let ?c = example_construction
  let ?g = "matrix_graph [[0, 1, 2, 1], [2, 0, 3, 1], [4, 4, 0, 1], [1, 1, 1, 0]]"
  note inst = extenders_place_every_node [of ?c ?g "3 / 2" "[2, 0, 1]"]
  have k: "kernel_nodes ?c ?g (3 / 2) = [0, 1, 2]" by code_simp
  have d: "distinct (nodes ?g)" by code_simp
  have td: "tree_doubling_extend ?c ?g (kernel_nodes ?c ?g (3 / 2)) [2, 0, 1] = Inr [2, 0, 1, 3]"
    by code_simp
  have ch: "christofides_extend ?c ?g (kernel_nodes ?c ?g (3 / 2)) [2, 0, 1] = Inr [0, 1, 2, 3]"
    by code_simp
  from inst [THEN conjunct1, rule_format, OF td]
  have "distinct (nodes ?g) \<longrightarrow> mset [2, 0, 1, 3] = mset (nodes ?g)" by (elim conjE)
  from this [THEN mp, OF d] have m1: "mset [2, 0, 1, 3] = mset (nodes ?g)" .
  from inst [THEN conjunct2, rule_format, OF ch]
  have "distinct (nodes ?g) \<longrightarrow> mset [0, 1, 2, 3] = mset (nodes ?g)" by (elim conjE)
  from this [THEN mp, OF d] have m2: "mset [0, 1, 2, 3] = mset (nodes ?g)" .
  from k td ch m1 m2 show ?thesis by (intro conjI)
qed

end
